theory Spec2Isabelle
  imports Main "HOL-Library.Word"
begin

section \<open>The in-memory buffer of package buffer\<close>

subsection \<open>Data model\<close>

text \<open>
  A message part is a Go byte slice, and a \<open>char\<close> is a byte. The capacity of a slice
  is never below its length, so a part is kept as its bytes together with the spare room
  behind them.
\<close>

record byte_slice =
  bytes :: string
  spare :: nat

definition cap :: "byte_slice \<Rightarrow> nat" where
  "cap p = length (bytes p) + spare p"

text \<open>\<^verbatim>\<open>types.Message\<close>: the buffer reads the field \<^verbatim>\<open>Parts\<close> only.\<close>

record message =
  Parts :: "byte_slice list"

text \<open>
  The queue holds pointers, \<^verbatim>\<open>[]*types.Message\<close>. A pointer is the address of a
  message variable; the messages live in a store from addresses to messages, which the
  queue operations read and which code outside the buffer can change while a message is
  queued. Every caller passes the address of a local variable, so no pointer is nil.
\<close>

type_synonym addr = nat

type_synonym store = "addr \<Rightarrow> message"

definition emptyStore :: store where
  "emptyStore a = \<lparr>Parts = []\<rparr>"

definition oneStore :: "message \<Rightarrow> store" where
  "oneStore msg a = msg"

text \<open>
  Errors are compared by identity in Go. The package's own errors and the one of package
  types that the buffer returns are constructors; any other error (one reported by the
  consumer of the buffer) is identified by a number.
\<close>

datatype error =
    ErrOutOfBounds
  | ErrBufferReachedLimit
  | ErrAlreadyStarted
  | ErrTimeout
  | ErrOther nat

text \<open>The run-time panics that the code of the buffer can raise.\<close>

datatype panic = AssignmentToEntryInNilMap | CloseOfClosedChannel

text \<open>
  \<^verbatim>\<open>types.Response\<close> is read through \<^verbatim>\<open>Error()\<close> only: \<open>None\<close> is the nil error,
  and \<^verbatim>\<open>types.NewSimpleResponse(nil)\<close> is \<open>None\<close>.
\<close>

type_synonym response = "error option"

definition NewSimpleResponse :: "error option \<Rightarrow> response" where
  "NewSimpleResponse e = e"

text \<open>
  A channel is known by a number; a nil channel is \<open>None\<close>. The struct \<^verbatim>\<open>Memory\<close>
  keeps the queue, the limit, the byte counter, the running flag (an int32), the two
  channels assigned from outside, the counter of the wait group, and the close channel,
  of which only whether it has been closed matters. The other channels made by
  \<^verbatim>\<open>NewMemory\<close> are never reassigned and appear in the loops as events.

  Go's \<^verbatim>\<open>int\<close> is a signed machine integer of the width of the platform, 32 or 64
  bits: \<open>limit\<close> and \<open>used\<close> are words of a width \<open>'w\<close>, read as signed numbers by
  \<open>sint\<close>, and their sums and differences wrap around.
\<close>

type_synonym chan = nat

record (overloaded) 'w Memory =
  buffer :: "addr list"
  limit :: "'w word"
  used :: "'w word"
  running :: "32 word"
  messagesIn :: "chan option"
  responsesIn :: "chan option"
  closedWG :: int
  closeChan :: bool

definition NewMemory :: "'w::len word \<Rightarrow> 'w Memory" where
  "NewMemory lim =
     \<lparr> buffer = [], limit = lim, used = 0, running = 1,
       messagesIn = None, responsesIn = None, closedWG = 0, closeChan = False \<rparr>"

subsection \<open>Queue operations\<close>

text \<open>
  The loop \<^verbatim>\<open>size := 0; for i := range msg.Parts { size += cap(msg.Parts[i]) }\<close>
  that both \<^verbatim>\<open>shiftMessage\<close> and \<^verbatim>\<open>pushMessage\<close> run, in the arithmetic of \<^verbatim>\<open>int\<close>.
\<close>

fun sizeLoop :: "byte_slice list \<Rightarrow> 'w::len word \<Rightarrow> 'w word" where
  "sizeLoop [] sz = sz"
| "sizeLoop (p # ps) sz = sizeLoop ps (sz + of_nat (cap p))"

definition messageSize :: "message \<Rightarrow> 'w::len word" where
  "messageSize msg = sizeLoop (Parts msg) 0"

text \<open>
  \<^verbatim>\<open>shiftMessage\<close> measures the message that the head pointer refers to at the moment of
  the removal.
\<close>

definition shiftMessage :: "store \<Rightarrow> 'w::len Memory \<Rightarrow> 'w Memory" where
  "shiftMessage h m =
     (case buffer m of
        [] \<Rightarrow> m
      | msg # rest \<Rightarrow> m\<lparr> used := used m - messageSize (h msg), buffer := rest \<rparr>)"

definition nextMessage :: "'w::len Memory \<Rightarrow> (error + addr) \<times> 'w Memory" where
  "nextMessage m =
     (case buffer m of
        [] \<Rightarrow> (Inl ErrOutOfBounds, m)
      | msg # rest \<Rightarrow> (Inr msg, m))"

definition pushMessage :: "store \<Rightarrow> 'w::len Memory \<Rightarrow> addr \<Rightarrow> bool \<times> 'w Memory" where
  "pushMessage h m msg =
     (let m' = m\<lparr> used := used m + messageSize (h msg), buffer := buffer m @ [msg] \<rparr>
      in (sint (used m') > sint (limit m'), m'))"

definition limitReached :: "'w::len Memory \<Rightarrow> bool" where
  "limitReached m = (sint (used m) > sint (limit m))"

text \<open>Pushing a sequence of messages, one call of \<^verbatim>\<open>pushMessage\<close> each.\<close>

fun pushAll :: "store \<Rightarrow> 'w::len Memory \<Rightarrow> addr list \<Rightarrow> 'w Memory" where
  "pushAll h m [] = m"
| "pushAll h m (msg # msgs) = pushAll h (snd (pushMessage h m msg)) msgs"

text \<open>
  Consuming: \<^verbatim>\<open>nextMessage\<close> reads the head, \<^verbatim>\<open>shiftMessage\<close> removes it, at most
  \<open>n\<close> times, stopping at \<^verbatim>\<open>ErrOutOfBounds\<close>. The pointers read are returned in the
  order they were read.
\<close>

fun drain :: "store \<Rightarrow> nat \<Rightarrow> 'w::len Memory \<Rightarrow> addr list \<times> 'w Memory" where
  "drain h 0 m = ([], m)"
| "drain h (Suc n) m =
     (case nextMessage m of
        (Inl e, m1) \<Rightarrow> ([], m1)
      | (Inr msg, m1) \<Rightarrow>
          (let (out, m2) = drain h n (shiftMessage h m1) in (msg # out, m2)))"

text \<open>
  A call sequence on the queue, for the states the three operations can reach. The store
  is the same for the whole sequence: no message is changed from outside between the
  calls.
\<close>

datatype call = Push addr | Next | Shift

fun doCall :: "store \<Rightarrow> 'w::len Memory \<Rightarrow> call \<Rightarrow> 'w Memory" where
  "doCall h m (Push msg) = snd (pushMessage h m msg)"
| "doCall h m Next = snd (nextMessage m)"
| "doCall h m Shift = shiftMessage h m"

fun doCalls :: "store \<Rightarrow> 'w::len Memory \<Rightarrow> call list \<Rightarrow> 'w Memory" where
  "doCalls h m [] = m"
| "doCalls h m (c # cs) = doCalls h (doCall h m c) cs"

text \<open>
  The size of a message and the bytes accounted for the messages of a queue, as numbers:
  the sums of the capacities, not reduced to the width of \<^verbatim>\<open>int\<close>.
\<close>

definition sizeMath :: "message \<Rightarrow> int" where
  "sizeMath msg = sum_list (map (\<lambda>p. int (cap p)) (Parts msg))"

definition queueBytes :: "store \<Rightarrow> addr list \<Rightarrow> int" where
  "queueBytes h q = sum_list (map (\<lambda>msg. sizeMath (h msg)) q)"

subsection \<open>Assigning the channels\<close>

text \<open>
  \<^verbatim>\<open>StartReceiving\<close> and \<^verbatim>\<open>StartListening\<close> return the error (\<open>None\<close> is nil) and the
  state. \<^verbatim>\<open>StartListening\<close> also starts the two goroutines once both channels are there;
  the goroutines it starts are returned as a list.
\<close>

datatype goroutine = InputLoop | OutputLoop

definition StartReceiving ::
  "'w::len Memory \<Rightarrow> chan option \<Rightarrow> error option \<times> 'w Memory" where
  "StartReceiving m msgs =
     (if messagesIn m \<noteq> None then (Some ErrAlreadyStarted, m)
      else (None, m\<lparr> messagesIn := msgs \<rparr>))"

definition StartListening ::
  "'w::len Memory \<Rightarrow> chan option \<Rightarrow> error option \<times> 'w Memory \<times> goroutine list" where
  "StartListening m responses =
     (if responsesIn m \<noteq> None then (Some ErrAlreadyStarted, m, [])
      else (let m1 = m\<lparr> responsesIn := responses \<rparr> in
            if messagesIn m1 \<noteq> None
            then (None, m1\<lparr> closedWG := closedWG m1 + 2 \<rparr>, [InputLoop, OutputLoop])
            else (None, m1, [])))"

text \<open>
  \<^verbatim>\<open>CloseAsync\<close> stores 0 in the running flag and closes the close channel; closing a
  channel that is closed already panics.
\<close>

definition CloseAsync :: "'w::len Memory \<Rightarrow> panic + 'w Memory" where
  "CloseAsync m =
     (if closeChan m then Inl CloseOfClosedChannel
      else Inr (m\<lparr> running := 0, closeChan := True \<rparr>))"

subsection \<open>What the loops send\<close>

text \<open>
  A value sent by a loop: a response on \<^verbatim>\<open>responsesOut\<close> to the producer, a message on
  \<^verbatim>\<open>messagesOut\<close> to the consumer, or the collected errors on \<^verbatim>\<open>errorsChan\<close>.
\<close>

datatype emitted = ToProducer response | ToConsumer message | ToErrors "error list"

fun isAck :: "emitted \<Rightarrow> bool" where
  "isAck (ToProducer r) = True"
| "isAck (ToConsumer msg) = False"
| "isAck (ToErrors es) = False"

definition acks :: "emitted list \<Rightarrow> nat" where
  "acks outs = length (filter isAck outs)"

fun emit :: "emitted option \<Rightarrow> emitted list \<Rightarrow> emitted list" where
  "emit None outs = outs"
| "emit (Some x) outs = x # outs"

text \<open>
  What a loop works on: the struct, the store its pointers refer to, and the next
  address that a new message variable gets.
\<close>

record (overloaded) 'w globals =
  mem :: "'w Memory"
  store :: store
  fresh :: addr

subsection \<open>The single loop \<^verbatim>\<open>loop\<close>\<close>

text \<open>
  The locals of \<^verbatim>\<open>loop\<close> next to what it works on. Each iteration computes which
  channels of the select are nil and then takes one case; which case is taken, and what a
  receive delivers, is the choice of the peers, given as an event. A case on a nil channel
  is never taken: the step is \<open>None\<close>. Nothing is ever sent on the close channel, so its
  case is taken only once \<^verbatim>\<open>CloseAsync\<close> has closed it, and the receive then yields
  false for \<open>running\<close>. Two events are not cases of the select but what the outside does
  between two iterations: it changes a message in the store, or it calls
  \<^verbatim>\<open>CloseAsync\<close>.
\<close>

record (overloaded) 'w loopState = "'w globals" +
  lrunning :: bool
  responseInPending :: bool
  responseOutPending :: bool
  errors :: "error list"

datatype event =
    RecvMessage message
  | RecvMessagesClosed
  | SendResponse
  | SendMessage
  | RecvResponse response
  | RecvResponsesClosed
  | SendErrors
  | RecvClose
  | Modify addr message
  | CallCloseAsync

definition loopInit :: "'w::len Memory \<Rightarrow> store \<Rightarrow> addr \<Rightarrow> 'w loopState" where
  "loopInit m h n =
     \<lparr> mem = m, store = h, fresh = n, lrunning = True, responseInPending = False,
       responseOutPending = False, errors = [] \<rparr>"

text \<open>\<open>True\<close>: the channel variable holds the channel; \<open>False\<close>: it is nil.\<close>

definition outMsgChan :: "'w::len loopState \<Rightarrow> bool" where
  "outMsgChan s = (\<not> responseInPending s \<and> length (buffer (mem s)) > 0)"

definition nextMsg :: "'w::len loopState \<Rightarrow> message" where
  "nextMsg s =
     (if \<not> responseInPending s \<and> length (buffer (mem s)) > 0
      then (case buffer (mem s) of msg # rest \<Rightarrow> store s msg | [] \<Rightarrow> \<lparr>Parts = []\<rparr>)
      else \<lparr>Parts = []\<rparr>)"

definition inMsgChan :: "'w::len loopState \<Rightarrow> chan option" where
  "inMsgChan s =
     (if \<not> limitReached (mem s)
      then (if responseOutPending s then None else messagesIn (mem s))
      else None)"

definition outResChan :: "'w::len loopState \<Rightarrow> bool" where
  "outResChan s =
     (if \<not> limitReached (mem s) then (if responseOutPending s then True else False)
      else False)"

definition errChan :: "'w::len loopState \<Rightarrow> bool" where
  "errChan s = (if length (errors s) = 0 then False else True)"

text \<open>
  The message received is a new variable \<open>msg\<close> of the case, and \<^verbatim>\<open>pushMessage(&msg)\<close>
  queues its address.
\<close>

fun loopSelect ::
  "'w::len loopState \<Rightarrow> event \<Rightarrow> (panic + 'w loopState \<times> emitted option) option" where
  "loopSelect s (RecvMessage msg) =
     (if inMsgChan s \<noteq> None
      then (let h = (store s)(fresh s := msg)
            in Some (Inr (s\<lparr> mem := snd (pushMessage h (mem s) (fresh s)), store := h,
                              fresh := Suc (fresh s), responseOutPending := True \<rparr>, None)))
      else None)"
| "loopSelect s RecvMessagesClosed =
     (if inMsgChan s \<noteq> None
      then Some (Inr (s\<lparr> mem := (mem s)\<lparr> messagesIn := None \<rparr> \<rparr>, None))
      else None)"
| "loopSelect s SendResponse =
     (if outResChan s
      then Some (Inr (s\<lparr> responseOutPending := False \<rparr>,
                      Some (ToProducer (NewSimpleResponse None))))
      else None)"
| "loopSelect s SendMessage =
     (if outMsgChan s
      then Some (Inr (s\<lparr> responseInPending := True \<rparr>, Some (ToConsumer (nextMsg s))))
      else None)"
| "loopSelect s (RecvResponse res) =
     (if responsesIn (mem s) \<noteq> None
      then Some (Inr ((case res of
                         Some e \<Rightarrow> s\<lparr> errors := errors s @ [e] \<rparr>
                       | None \<Rightarrow> s\<lparr> mem := shiftMessage (store s) (mem s) \<rparr>)
                      \<lparr> responseInPending := False \<rparr>, None))
      else None)"
| "loopSelect s RecvResponsesClosed =
     (if responsesIn (mem s) \<noteq> None
      then Some (Inr (s\<lparr> mem := (mem s)\<lparr> responsesIn := None \<rparr>,
                         responseInPending := False \<rparr>, None))
      else None)"
| "loopSelect s SendErrors =
     (if errChan s then Some (Inr (s\<lparr> errors := [] \<rparr>, Some (ToErrors (errors s))))
      else None)"
| "loopSelect s RecvClose =
     (if closeChan (mem s) then Some (Inr (s\<lparr> lrunning := False \<rparr>, None)) else None)"
| "loopSelect s (Modify a msg) = Some (Inr (s\<lparr> store := (store s)(a := msg) \<rparr>, None))"
| "loopSelect s CallCloseAsync =
     (case CloseAsync (mem s) of
        Inl p \<Rightarrow> Some (Inl p)
      | Inr m1 \<Rightarrow> Some (Inr (s\<lparr> mem := m1 \<rparr>, None)))"

text \<open>
  One iteration of \<^verbatim>\<open>for running\<close>. When \<open>running\<close> has become false the loop is left:
  the three outgoing channels are closed, the wait group is told, and nothing is sent
  any more.
\<close>

definition loopStep ::
  "'w::len loopState \<Rightarrow> event \<Rightarrow> (panic + 'w loopState \<times> emitted option) option" where
  "loopStep s ev =
     (if lrunning s
      then (case loopSelect s ev of
              None \<Rightarrow> None
            | Some (Inl p) \<Rightarrow> Some (Inl p)
            | Some (Inr (s1, out)) \<Rightarrow>
                if lrunning s1 then Some (Inr (s1, out))
                else Some (Inr (s1\<lparr> mem := (mem s1)\<lparr> closedWG := closedWG (mem s1) - 1 \<rparr> \<rparr>,
                                out)))
      else None)"

fun loopRun ::
  "'w::len loopState \<Rightarrow> event list \<Rightarrow> (panic + 'w loopState \<times> emitted list) option" where
  "loopRun s [] = Some (Inr (s, []))"
| "loopRun s (ev # evs) =
     (case loopStep s ev of
        None \<Rightarrow> None
      | Some (Inl p) \<Rightarrow> Some (Inl p)
      | Some (Inr (s1, out)) \<Rightarrow>
          (case loopRun s1 evs of
             None \<Rightarrow> None
           | Some (Inl p) \<Rightarrow> Some (Inl p)
           | Some (Inr (s2, outs)) \<Rightarrow> Some (Inr (s2, emit out outs))))"

fun isRecvMessage :: "event \<Rightarrow> bool" where
  "isRecvMessage (RecvMessage msg) = True"
| "isRecvMessage ev = False"

definition loopAccepted :: "event list \<Rightarrow> nat" where
  "loopAccepted evs = length (filter isRecvMessage evs)"

subsection \<open>The two loops \<^verbatim>\<open>inputLoop\<close> and \<^verbatim>\<open>outputLoop\<close>\<close>

text \<open>
  \<^verbatim>\<open>StartListening\<close> runs the two loops as goroutines over the same struct. Each loop is
  cut at its accesses to what the other can see: a call of a locked method, a load or
  store of the running flag, a channel operation. A program point names the access the
  loop makes next; the locals are kept beside it. An event is what the outside decides:
  that the step is taken now, that a peer takes what is sent, what a receive delivers.
  A step is \<open>None\<close> when the loop cannot make it from its program point.
\<close>

datatype inputPC =
    InHead
  | InLimit
  | InRespondPending
  | InReceive
  | InStop
  | InPush addr
  | InRespond
  | InWait
  | InClose
  | InDone

record inputLocal =
  ipc :: inputPC
  responsePending :: bool

datatype inputEvent = InTau | InSend | InRecv message | InRecvClosed

text \<open>
  The message received is a new variable \<open>msg\<close> of the iteration, whose address
  \<^verbatim>\<open>pushMessage(&msg)\<close> queues.
\<close>

fun inputStep ::
  "'w::len globals \<Rightarrow> inputLocal \<Rightarrow> inputEvent
     \<Rightarrow> ('w globals \<times> inputLocal \<times> emitted option) option" where
  "inputStep g l InTau =
     (case ipc l of
        InHead \<Rightarrow>
          (if running (mem g) = 1 then Some (g, l\<lparr> ipc := InLimit \<rparr>, None)
           else Some (g, l\<lparr> ipc := InClose \<rparr>, None))
      | InLimit \<Rightarrow>
          (if \<not> limitReached (mem g)
           then (if responsePending l then Some (g, l\<lparr> ipc := InRespondPending \<rparr>, None)
                 else Some (g, l\<lparr> ipc := InReceive \<rparr>, None))
           else Some (g, l\<lparr> ipc := InWait \<rparr>, None))
      | InStop \<Rightarrow> Some (g\<lparr> mem := (mem g)\<lparr> running := 0 \<rparr> \<rparr>, l\<lparr> ipc := InHead \<rparr>, None)
      | InPush msg \<Rightarrow>
          (case pushMessage (store g) (mem g) msg of
             (reached, m1) \<Rightarrow>
               if \<not> reached then Some (g\<lparr> mem := m1 \<rparr>, l\<lparr> ipc := InRespond \<rparr>, None)
               else Some (g\<lparr> mem := m1 \<rparr>, l\<lparr> ipc := InHead, responsePending := True \<rparr>, None))
      | InWait \<Rightarrow> Some (g, l\<lparr> ipc := InHead \<rparr>, None)
      | InClose \<Rightarrow>
          Some (g\<lparr> mem := (mem g)\<lparr> closedWG := closedWG (mem g) - 1 \<rparr> \<rparr>,
                l\<lparr> ipc := InDone \<rparr>, None)
      | _ \<Rightarrow> None)"
| "inputStep g l InSend =
     (case ipc l of
        InRespondPending \<Rightarrow>
          Some (g, l\<lparr> ipc := InReceive, responsePending := False \<rparr>,
                Some (ToProducer (NewSimpleResponse None)))
      | InRespond \<Rightarrow>
          Some (g, l\<lparr> ipc := InHead \<rparr>, Some (ToProducer (NewSimpleResponse None)))
      | _ \<Rightarrow> None)"
| "inputStep g l (InRecv msg) =
     (case ipc l of
        InReceive \<Rightarrow>
          (if messagesIn (mem g) \<noteq> None
           then Some (g\<lparr> store := (store g)(fresh g := msg), fresh := Suc (fresh g) \<rparr>,
                      l\<lparr> ipc := InPush (fresh g) \<rparr>, None)
           else None)
      | _ \<Rightarrow> None)"
| "inputStep g l InRecvClosed =
     (case ipc l of
        InReceive \<Rightarrow>
          (if messagesIn (mem g) \<noteq> None then Some (g, l\<lparr> ipc := InStop \<rparr>, None) else None)
      | _ \<Rightarrow> None)"

text \<open>
  \<^verbatim>\<open>outputLoop\<close>. Its map \<^verbatim>\<open>errMap\<close> is declared without a value, so it starts as the
  nil map (\<open>None\<close>); reading a nil map finds nothing, assigning to one panics. Its local
  \<open>msg\<close> is the pointer that \<^verbatim>\<open>nextMessage\<close> returned, and \<^verbatim>\<open>*msg\<close> is sent on.
\<close>

datatype outputPC =
    OutHead
  | OutNext
  | OutSend
  | OutReceive
  | OutStop
  | OutShift
  | OutWait
  | OutErrors
  | OutClose
  | OutDone

record outputLocal =
  opc :: outputPC
  omsg :: "addr option"
  errMap :: "error list option"
  errs :: "error list"

datatype outputEvent = OutTau | OutSendMessage | OutRecv response | OutRecvClosed | OutSendErrors

definition mapExists :: "error list option \<Rightarrow> error \<Rightarrow> bool" where
  "mapExists mp e = (case mp of None \<Rightarrow> False | Some ks \<Rightarrow> e \<in> set ks)"

definition mapAssign :: "error list option \<Rightarrow> error \<Rightarrow> panic + error list option" where
  "mapAssign mp e =
     (case mp of
        None \<Rightarrow> Inl AssignmentToEntryInNilMap
      | Some ks \<Rightarrow> Inr (Some (if e \<in> set ks then ks else ks @ [e])))"

fun outputStep ::
  "'w::len globals \<Rightarrow> outputLocal \<Rightarrow> outputEvent
     \<Rightarrow> (panic + 'w globals \<times> outputLocal \<times> emitted option) option" where
  "outputStep g l OutTau =
     (case opc l of
        OutHead \<Rightarrow>
          (if running (mem g) = 1 then Some (Inr (g, l\<lparr> opc := OutNext \<rparr>, None))
           else Some (Inr (g, l\<lparr> opc := OutClose \<rparr>, None)))
      | OutNext \<Rightarrow>
          (case omsg l of
             None \<Rightarrow>
               (case nextMessage (mem g) of
                  (Inl err, m1) \<Rightarrow> Some (Inr (g\<lparr> mem := m1 \<rparr>, l\<lparr> opc := OutWait \<rparr>, None))
                | (Inr msg, m1) \<Rightarrow>
                    Some (Inr (g\<lparr> mem := m1 \<rparr>, l\<lparr> opc := OutSend, omsg := Some msg \<rparr>, None)))
           | Some msg \<Rightarrow> Some (Inr (g, l\<lparr> opc := OutSend \<rparr>, None)))
      | OutStop \<Rightarrow>
          Some (Inr (g\<lparr> mem := (mem g)\<lparr> running := 0 \<rparr> \<rparr>, l\<lparr> opc := OutErrors \<rparr>, None))
      | OutShift \<Rightarrow>
          Some (Inr (g\<lparr> mem := shiftMessage (store g) (mem g) \<rparr>, l\<lparr> opc := OutErrors \<rparr>, None))
      | OutWait \<Rightarrow> Some (Inr (g, l\<lparr> opc := OutErrors \<rparr>, None))
      | OutErrors \<Rightarrow> Some (Inr (g, l\<lparr> opc := OutHead \<rparr>, None))
      | OutClose \<Rightarrow>
          Some (Inr (g\<lparr> mem := (mem g)\<lparr> closedWG := closedWG (mem g) - 1 \<rparr> \<rparr>,
                     l\<lparr> opc := OutDone \<rparr>, None))
      | _ \<Rightarrow> None)"
| "outputStep g l OutSendMessage =
     (case opc l of
        OutSend \<Rightarrow>
          (case omsg l of
             Some msg \<Rightarrow> Some (Inr (g, l\<lparr> opc := OutReceive \<rparr>, Some (ToConsumer (store g msg))))
           | None \<Rightarrow> None)
      | _ \<Rightarrow> None)"
| "outputStep g l (OutRecv res) =
     (case opc l of
        OutReceive \<Rightarrow>
          (if responsesIn (mem g) \<noteq> None
           then (case res of
                   None \<Rightarrow> Some (Inr (g, l\<lparr> opc := OutShift, omsg := None \<rparr>, None))
                 | Some e \<Rightarrow>
                     (if \<not> mapExists (errMap l) e
                      then (case mapAssign (errMap l) e of
                              Inl p \<Rightarrow> Some (Inl p)
                            | Inr mp \<Rightarrow>
                                Some (Inr (g, l\<lparr> opc := OutErrors, errMap := mp,
                                                  errs := errs l @ [e] \<rparr>, None)))
                      else Some (Inr (g, l\<lparr> opc := OutErrors \<rparr>, None))))
           else None)
      | _ \<Rightarrow> None)"
| "outputStep g l OutRecvClosed =
     (case opc l of
        OutReceive \<Rightarrow>
          (if responsesIn (mem g) \<noteq> None then Some (Inr (g, l\<lparr> opc := OutStop \<rparr>, None))
           else None)
      | _ \<Rightarrow> None)"
| "outputStep g l OutSendErrors =
     (case opc l of
        OutErrors \<Rightarrow>
          (if length (errs l) > 0
           then Some (Inr (g, l\<lparr> opc := OutHead, errMap := Some [], errs := [] \<rparr>,
                           Some (ToErrors (errs l))))
           else None)
      | _ \<Rightarrow> None)"

text \<open>
  The program: what the loops work on, the two loops side by side, and what the outside
  does at any moment: it calls \<^verbatim>\<open>CloseAsync\<close>, or it changes a message in the store. A
  panic ends the program.
\<close>

record (overloaded) 'w system = "'w globals" +
  inp :: inputLocal
  outp :: outputLocal

datatype sysEvent = Input inputEvent | Output outputEvent | Close | Change addr message

definition sysInit :: "'w::len Memory \<Rightarrow> store \<Rightarrow> addr \<Rightarrow> 'w system" where
  "sysInit m h n =
     \<lparr> mem = m, store = h, fresh = n,
       inp = \<lparr> ipc = InHead, responsePending = False \<rparr>,
       outp = \<lparr> opc = OutHead, omsg = None, errMap = None, errs = [] \<rparr> \<rparr>"

definition globalsOf :: "'w::len system \<Rightarrow> 'w globals" where
  "globalsOf s = \<lparr> mem = mem s, store = store s, fresh = fresh s \<rparr>"

definition setGlobals :: "'w::len system \<Rightarrow> 'w globals \<Rightarrow> 'w system" where
  "setGlobals s g = s\<lparr> mem := mem g, store := store g, fresh := fresh g \<rparr>"

fun sysStep ::
  "'w::len system \<Rightarrow> sysEvent \<Rightarrow> (panic + 'w system \<times> emitted option) option" where
  "sysStep s (Input ev) =
     (case inputStep (globalsOf s) (inp s) ev of
        None \<Rightarrow> None
      | Some (g1, l1, out) \<Rightarrow> Some (Inr ((setGlobals s g1)\<lparr> inp := l1 \<rparr>, out)))"
| "sysStep s (Output ev) =
     (case outputStep (globalsOf s) (outp s) ev of
        None \<Rightarrow> None
      | Some (Inl p) \<Rightarrow> Some (Inl p)
      | Some (Inr (g1, l1, out)) \<Rightarrow> Some (Inr ((setGlobals s g1)\<lparr> outp := l1 \<rparr>, out)))"
| "sysStep s Close =
     (case CloseAsync (mem s) of
        Inl p \<Rightarrow> Some (Inl p)
      | Inr m1 \<Rightarrow> Some (Inr (s\<lparr> mem := m1 \<rparr>, None)))"
| "sysStep s (Change a msg) = Some (Inr (s\<lparr> store := (store s)(a := msg) \<rparr>, None))"

fun sysRun ::
  "'w::len system \<Rightarrow> sysEvent list \<Rightarrow> (panic + 'w system \<times> emitted list) option" where
  "sysRun s [] = Some (Inr (s, []))"
| "sysRun s (ev # evs) =
     (case sysStep s ev of
        None \<Rightarrow> None
      | Some (Inl p) \<Rightarrow> Some (Inl p)
      | Some (Inr (s1, out)) \<Rightarrow>
          (case sysRun s1 evs of
             None \<Rightarrow> None
           | Some (Inl p) \<Rightarrow> Some (Inl p)
           | Some (Inr (s2, outs)) \<Rightarrow> Some (Inr (s2, emit out outs))))"

fun isInRecv :: "sysEvent \<Rightarrow> bool" where
  "isInRecv (Input (InRecv msg)) = True"
| "isInRecv ev = False"

definition sysAccepted :: "sysEvent list \<Rightarrow> nat" where
  "sysAccepted evs = length (filter isInRecv evs)"

text \<open>The transaction whose acknowledgement the input loop still owes.\<close>

definition owing :: "inputLocal \<Rightarrow> nat" where
  "owing l =
     (case ipc l of
        InPush msg \<Rightarrow> 1
      | InRespond \<Rightarrow> 1
      | _ \<Rightarrow> (if responsePending l then 1 else 0))"

subsection \<open>Invariants of the two loops and example states\<close>

text \<open>
  A removal is exact when neither the size of the head message nor the subtraction from
  \<open>used\<close> leaves the range of \<^verbatim>\<open>int\<close>; an execution of the two loops has exact removals
  when every call of \<^verbatim>\<open>shiftMessage\<close> in it is exact.
\<close>

definition shiftExact :: "store \<Rightarrow> 'w::len Memory \<Rightarrow> bool" where
  "shiftExact h m =
     (case buffer m of
        [] \<Rightarrow> True
      | msg # rest \<Rightarrow>
          sizeMath (h msg) < 2 ^ (LENGTH('w) - 1)
          \<and> - (2 ^ (LENGTH('w) - 1)) \<le> sint (used m) - sizeMath (h msg))"

definition shiftsNow :: "'w::len system \<Rightarrow> sysEvent \<Rightarrow> bool" where
  "shiftsNow s ev = (ev = Output OutTau \<and> opc (outp s) = OutShift)"

fun exactShifts :: "'w::len system \<Rightarrow> sysEvent list \<Rightarrow> bool" where
  "exactShifts s [] = True"
| "exactShifts s (ev # evs) =
     ((if shiftsNow s ev then shiftExact (store s) (mem s) else True)
      \<and> (case sysStep s ev of
           Some (Inr (s1, out)) \<Rightarrow> exactShifts s1 evs
         | _ \<Rightarrow> True))"

text \<open>
  A buffer with both channels assigned, as \<^verbatim>\<open>StartReceiving\<close> and \<^verbatim>\<open>StartListening\<close>
  leave it, on a 64-bit and on a 32-bit platform, and a message of one part of
  capacity 1.
\<close>

definition started :: "64 word \<Rightarrow> 64 Memory" where
  "started lim =
     fst (snd (StartListening (snd (StartReceiving (NewMemory lim) (Some 1))) (Some 2)))"

definition started32 :: "32 word \<Rightarrow> 32 Memory" where
  "started32 lim =
     fst (snd (StartListening (snd (StartReceiving (NewMemory lim) (Some 1))) (Some 2)))"

definition oneByte :: message where
  "oneByte = \<lparr>Parts = [\<lparr>bytes = ''a'', spare = 0\<rparr>]\<rparr>"

text \<open>
  The program points of \<^verbatim>\<open>inputLoop\<close> that follow a call of \<^verbatim>\<open>limitReached\<close> or of
  \<^verbatim>\<open>pushMessage\<close> that found the limit not exceeded: the two sends of a response and
  the receive of a message.
\<close>

fun admits :: "inputPC \<Rightarrow> bool" where
  "admits InRespondPending = True"
| "admits InReceive = True"
| "admits InRespond = True"
| "admits pc = False"

definition underLimit :: "'w::len system \<Rightarrow> bool" where
  "underLimit s = (if admits (ipc (inp s)) then \<not> limitReached (mem s) else True)"

text \<open>How the flag \<^verbatim>\<open>responsePending\<close> stands at the program points of \<^verbatim>\<open>inputLoop\<close>.\<close>

definition settled :: "inputLocal \<Rightarrow> bool" where
  "settled l =
     (case ipc l of
        InRespondPending \<Rightarrow> responsePending l
      | InReceive \<Rightarrow> \<not> responsePending l
      | InStop \<Rightarrow> \<not> responsePending l
      | InPush msg \<Rightarrow> \<not> responsePending l
      | InRespond \<Rightarrow> \<not> responsePending l
      | _ \<Rightarrow> True)"

text \<open>
  Messages that bring a 32-bit \<^verbatim>\<open>int\<close> to its bounds: one part of capacity \<open>2\<^sup>3\<^sup>0\<close>; two
  such parts; a part of capacity \<open>2\<^sup>3\<^sup>0\<close> and one of capacity \<open>2\<^sup>3\<^sup>0 - 1\<close>. And a message of
  one part of capacity 100.
\<close>

definition gib :: message where
  "gib = \<lparr>Parts = [\<lparr>bytes = '''', spare = 1073741824\<rparr>]\<rparr>"

definition twoGib :: message where
  "twoGib = \<lparr>Parts = [\<lparr>bytes = '''', spare = 1073741824\<rparr>, \<lparr>bytes = '''', spare = 1073741824\<rparr>]\<rparr>"

definition hundred :: message where
  "hundred = \<lparr>Parts = [\<lparr>bytes = '''', spare = 100\<rparr>]\<rparr>"

definition almostTwoGib :: message where
  "almostTwoGib =
     \<lparr>Parts = [\<lparr>bytes = '''', spare = 1073741824\<rparr>, \<lparr>bytes = '''', spare = 1073741823\<rparr>]\<rparr>"

section \<open>The fallback router\<close>

text \<open>
  Modelled from the spec: the fallback output itself is not among the sources, only its
  test \<^verbatim>\<open>TestFallbackOutputBasic\<close> is. A target is a transformation chain and a sink
  capability \<^verbatim>\<open>attempt(message)\<close> that answers success (\<open>None\<close>) or failure with an
  error. Chains and sinks have effects (files written, counters raised), so both take
  and return the world \<open>'w\<close> they act on.
\<close>

record 'w target =
  chain :: "message \<Rightarrow> 'w \<Rightarrow> message \<times> 'w"
  attempt :: "message \<Rightarrow> 'w \<Rightarrow> error option \<times> 'w"

text \<open>
  Modelled from the spec: what one target made of the message. The chain left no part
  (nothing to deliver, no attempt made: a success), the sink accepted, or the sink
  rejected with an error.
\<close>

datatype outcome = NothingToDeliver | Delivered | Failed error

text \<open>
  Modelled from the spec: steps 2 to 4 of the algorithm for one target. The chain runs
  over a copy of the original payload; the sink is tried only if parts are left.
\<close>

definition attemptTarget :: "'w target \<Rightarrow> message \<Rightarrow> 'w \<Rightarrow> outcome \<times> 'w" where
  "attemptTarget t original w =
     (let (copy, w1) = chain t original w in
      if Parts copy = [] then (NothingToDeliver, w1)
      else (case attempt t copy w1 of
              (None, w2) \<Rightarrow> (Delivered, w2)
            | (Some e, w2) \<Rightarrow> (Failed e, w2)))"

text \<open>
  Modelled from the spec: the algorithm per inbound transaction, from target \<open>i\<close> on,
  which is \<open>t\<close>, with the targets after it in \<open>rest\<close>. It returns the targets visited
  with what each made of the message, in the order visited, the resolution of the
  transaction (\<open>None\<close>: accepted, \<open>Some e\<close>: rejected with \<open>e\<close>), and the world.
\<close>

fun tryFrom ::
  "nat \<Rightarrow> 'w target \<Rightarrow> 'w target list \<Rightarrow> message \<Rightarrow> 'w
     \<Rightarrow> (nat \<times> outcome) list \<times> response \<times> 'w" where
  "tryFrom i t [] original w =
     (case attemptTarget t original w of
        (Failed e, w1) \<Rightarrow> ([(i, Failed e)], Some e, w1)
      | (ok, w1) \<Rightarrow> ([(i, ok)], None, w1))"
| "tryFrom i t (t' # rest) original w =
     (case attemptTarget t original w of
        (Failed e, w1) \<Rightarrow>
          (let (visited, res, w2) = tryFrom (Suc i) t' rest original w1
           in ((i, Failed e) # visited, res, w2))
      | (ok, w1) \<Rightarrow> ([(i, ok)], None, w1))"

text \<open>
  Modelled from the spec: the router over its configured list of N targets, N at least
  1. The spec gives no behaviour to an empty list: \<open>None\<close>.
\<close>

definition fallback ::
  "'w target list \<Rightarrow> message \<Rightarrow> 'w \<Rightarrow> ((nat \<times> outcome) list \<times> response \<times> 'w) option" where
  "fallback ts original w =
     (case ts of
        [] \<Rightarrow> None
      | t # rest \<Rightarrow> Some (tryFrom 0 t rest original w))"

text \<open>
  Modelled from the spec: a visit that ended in a rejection by the sink.
\<close>

fun isFailed :: "nat \<times> outcome \<Rightarrow> bool" where
  "isFailed (i, Failed e) = True"
| "isFailed (i, ok) = False"

subsection \<open>The example scenario\<close>

text \<open>
  Modelled from the spec: the router serving one inbound transaction after another, each
  over the world the one before left. It returns the resolutions in order.
\<close>

fun sendAll ::
  "'w target list \<Rightarrow> message list \<Rightarrow> 'w \<Rightarrow> (response list \<times> 'w) option" where
  "sendAll ts [] w = Some ([], w)"
| "sendAll ts (msg # msgs) w =
     (case fallback ts msg w of
        None \<Rightarrow> None
      | Some (visited, res, w1) \<Rightarrow>
          (case sendAll ts msgs w1 of
             None \<Rightarrow> None
           | Some (rs, w2) \<Rightarrow> Some (res # rs, w2)))"

text \<open>
  Modelled from the spec: the world of the example scenario, which
  \<^verbatim>\<open>TestFallbackOutputBasic\<close> sets up: the process-wide named counters and the files
  written so far, each a path with its content.
\<close>

record world =
  counters :: "(string \<times> nat) list"
  files :: "(string \<times> string) list"

text \<open>
  Modelled from the spec: \<^verbatim>\<open>counter(name)\<close>, the next integer of the counter of that
  name, the first being 1.
\<close>

definition count :: "string \<Rightarrow> world \<Rightarrow> nat \<times> world" where
  "count name w =
     (let n = (case map_of (counters w) name of None \<Rightarrow> 1 | Some k \<Rightarrow> Suc k)
      in (n, w\<lparr> counters := (name, n) # filter (\<lambda>kv. fst kv \<noteq> name) (counters w) \<rparr>))"

text \<open>
  Modelled from the spec: a counter value written into a path or a text, in decimal.
\<close>

fun decimal :: "nat \<Rightarrow> string" where
  "decimal n =
     (if n < 10 then [char_of (48 + n)]
      else decimal (n div 10) @ [char_of (48 + n mod 10)])"

text \<open>
  Modelled from the spec: the message of one part that the test makes from a string.
\<close>

definition fromString :: "string \<Rightarrow> message" where
  "fromString txt = \<lparr>Parts = [\<lparr>bytes = txt, spare = 0\<rparr>]\<rparr>"

text \<open>
  Modelled from the spec: the text step \<^verbatim>\<open>prepend\<close> of a transformation chain, which puts
  a text in front of every part.
\<close>

definition prepend :: "string \<Rightarrow> message \<Rightarrow> message" where
  "prepend txt msg =
     \<lparr>Parts = map (\<lambda>p. \<lparr>bytes = txt @ bytes p, spare = 0\<rparr>) (Parts msg)\<rparr>"

text \<open>
  Modelled from the spec: the content of a message as a file holds it.
\<close>

definition content :: "message \<Rightarrow> string" where
  "content msg = concat (map (\<lambda>p. bytes p) (Parts msg))"

text \<open>
  Modelled from the spec: the first target of the scenario, as the test configures it.
  Its chain prepends a text holding the next value of counter \<^verbatim>\<open>fallbacktofoo\<close>; its
  sink sends to an address nothing listens on and always fails.
\<close>

definition outOne :: "world target" where
  "outOne =
     \<lparr> chain = (\<lambda>msg w. let (n, w1) = count ''fallbacktofoo'' w
                       in (prepend (''this-should-never-appear '' @ decimal n) msg, w1)),
       attempt = (\<lambda>msg w. (Some (ErrOther 0), w)) \<rparr>"

text \<open>
  Modelled from the spec: the second target of the scenario. Its chain prepends
  \<^verbatim>\<open>two-\<close>; its sink writes a file whose name holds the next values of both counters.
\<close>

definition outTwo :: "world target" where
  "outTwo =
     \<lparr> chain = (\<lambda>msg w. (prepend ''two-'' msg, w)),
       attempt = (\<lambda>msg w.
          let (a, w1) = count ''fallbacktofoo'' w;
              (b, w2) = count ''fallbacktobar'' w1
          in (None, w2\<lparr> files := files w2
                @ [(''./two/bar-'' @ decimal a @ ''-'' @ decimal b @ ''.txt'', content msg)] \<rparr>)) \<rparr>"

text \<open>
  Modelled from the spec: the third target of the scenario. Its chain prepends a text
  holding the next value of counter \<^verbatim>\<open>fallbacktobar\<close>; its sink writes to the null
  device.
\<close>

definition outThree :: "world target" where
  "outThree =
     \<lparr> chain = (\<lambda>msg w. let (n, w1) = count ''fallbacktobar'' w
                       in (prepend (''this-should-never-appear '' @ decimal n) msg, w1)),
       attempt = (\<lambda>msg w. (None, w)) \<rparr>"

text \<open>
  Modelled from the spec: a target whose chain changes nothing and whose sink rejects
  with a given error.
\<close>

definition rejecting :: "error \<Rightarrow> 'w target" where
  "rejecting e = \<lparr> chain = (\<lambda>msg w. (msg, w)), attempt = (\<lambda>msg w. (Some e, w)) \<rparr>"


section \<open>Properties of the queue operations\<close>

text \<open>
  The size \<^verbatim>\<open>pushMessage\<close> and \<^verbatim>\<open>shiftMessage\<close> compute is the sum of the capacities
  reduced to the width of \<^verbatim>\<open>int\<close>, and a sum or difference that stays in the range of
  \<^verbatim>\<open>int\<close> is read back unchanged.
\<close>

lemma sizeLoop_sum:
  "sizeLoop ps acc = acc + word_of_int (sum_list (map (\<lambda>p. int (cap p)) ps))"
  by (induction ps arbitrary: acc) (simp_all add: algebra_simps)

lemma messageSize_sum: "messageSize msg = word_of_int (sizeMath msg)"
  by (simp add: messageSize_def sizeMath_def sizeLoop_sum)

lemma sizeMath_nonneg: "0 \<le> sizeMath msg"
  unfolding sizeMath_def by (rule sum_list_nonneg) auto

lemma sint_exact:
  "- (2 ^ (LENGTH('w::len) - 1)) \<le> x \<Longrightarrow> x < 2 ^ (LENGTH('w) - 1)
     \<Longrightarrow> sint (word_of_int x :: 'w word) = x"
  by (simp add: sint_sbintrunc' signed_take_bit_int_eq_self)

lemma sint_add_exact:
  fixes u :: "'w::len word"
  assumes "- (2 ^ (LENGTH('w) - 1)) \<le> sint u + x" and "sint u + x < 2 ^ (LENGTH('w) - 1)"
  shows "sint (u + word_of_int x) = sint u + x"
proof -
  have "u + word_of_int x = word_of_int (sint u + x)" by simp
  then show ?thesis using assms by (simp only: sint_exact)
qed

lemma sint_sub_exact:
  fixes u :: "'w::len word"
  assumes "- (2 ^ (LENGTH('w) - 1)) \<le> sint u - x" and "sint u - x < 2 ^ (LENGTH('w) - 1)"
  shows "sint (u - word_of_int x) = sint u - x"
proof -
  have "u - word_of_int x = word_of_int (sint u - x)" by simp
  then show ?thesis using assms by (simp only: sint_exact)
qed

lemma buffer_pushMessage: "buffer (snd (pushMessage h m msg)) = buffer m @ [msg]"
  by (simp add: pushMessage_def Let_def)

lemma buffer_pushAll: "buffer (pushAll h m msgs) = buffer m @ msgs"
  by (induction msgs arbitrary: m) (simp_all add: buffer_pushMessage)

lemma drain_buffer:
  "length (buffer m) \<le> n \<Longrightarrow> fst (drain h n m) = buffer m \<and> buffer (snd (drain h n m)) = []"
proof (induction n arbitrary: m)
  case 0
  then show ?case by simp
next
  case (Suc n)
  show ?case
  proof (cases "buffer m")
    case Nil
    then show ?thesis by (simp add: nextMessage_def)
  next
    case (Cons msg rest)
    then have "buffer (shiftMessage h m) = rest"
      by (simp add: shiftMessage_def)
    moreover from Cons Suc.prems have "length rest \<le> n" by simp
    ultimately have "fst (drain h n (shiftMessage h m)) = rest
        \<and> buffer (snd (drain h n (shiftMessage h m))) = []"
      using Suc.IH [of "shiftMessage h m"] by simp
    with Cons show ?thesis
      by (auto simp: nextMessage_def split: prod.splits)
  qed
qed

lemma drain_pushAll:
  "fst (drain h (length (buffer m) + length msgs) (pushAll h m msgs)) = buffer m @ msgs
   \<and> buffer (snd (drain h (length (buffer m) + length msgs) (pushAll h m msgs))) = []"
  using drain_buffer [of "pushAll h m msgs" "length (buffer m) + length msgs" h]
  by (simp add: buffer_pushAll)

text \<open>
  C1. Messages pushed with no consumption in between come out of repeated
  \<^verbatim>\<open>nextMessage\<close> and \<^verbatim>\<open>shiftMessage\<close> in exactly the order they were pushed, behind
  the messages that were queued before them, and the queue is empty afterwards; from
  \<^verbatim>\<open>NewMemory\<close> the messages that come out are exactly the messages pushed.
  \<^verbatim>\<open>nextMessage\<close> reads the head and \<^verbatim>\<open>shiftMessage\<close> removes the head and nothing
  else: the rest of the queue keeps its order. The queue holds the pointers that were
  pushed, so this holds whatever the messages are and whatever their sizes do to \<open>used\<close>.
\<close>

theorem fifo_order:
  "fst (drain h (length (buffer m) + length msgs) (pushAll h m msgs)) = buffer m @ msgs
   \<and> buffer (snd (drain h (length (buffer m) + length msgs) (pushAll h m msgs))) = []
   \<and> fst (drain h (length msgs) (pushAll h (NewMemory lim) msgs)) = msgs
   \<and> fst (nextMessage (m\<lparr>buffer := msg # rest\<rparr>)) = Inr msg
   \<and> buffer (shiftMessage h (m\<lparr>buffer := msg # rest\<rparr>)) = rest"
proof -
  have n: "fst (drain h (length msgs) (pushAll h (NewMemory lim) msgs)) = msgs"
    using drain_pushAll [of h "NewMemory lim" msgs] by (simp add: NewMemory_def)
  have hd: "fst (nextMessage (m\<lparr>buffer := msg # rest\<rparr>)) = Inr msg"
    by (simp add: nextMessage_def)
  have t: "buffer (shiftMessage h (m\<lparr>buffer := msg # rest\<rparr>)) = rest"
    by (simp add: shiftMessage_def)
  from drain_pushAll [of h m msgs] n hd t show ?thesis by simp
qed

theorem fifo_order_witness:
  "fst (drain (oneStore oneByte) 2 (pushAll (oneStore oneByte) (NewMemory (10 :: 64 word)) [3, 5]))
     = [3, 5]"
proof -
  have l: "length [3 :: addr, 5] = 2" by simp
  show ?thesis
    using fifo_order [where msgs = "[3, 5]" and lim = "10 :: 64 word"
        and h = "oneStore oneByte", THEN conjunct2, THEN conjunct2, THEN conjunct1]
    unfolding l .
qed

text \<open>
  Every call keeps \<open>used\<close> equal to the sum over the queue, reduced to the width of
  \<^verbatim>\<open>int\<close>, as long as the messages behind the queued pointers stay as they are.
\<close>

lemma queueBytes_Cons: "queueBytes h (msg # q) = sizeMath (h msg) + queueBytes h q"
  by (simp add: queueBytes_def)

lemma queueBytes_snoc: "queueBytes h (q @ [msg]) = queueBytes h q + sizeMath (h msg)"
  by (simp add: queueBytes_def)

lemma queueBytes_nonneg: "0 \<le> queueBytes h q"
proof (induction q)
  case Nil
  show ?case by (simp add: queueBytes_def)
next
  case (Cons msg q)
  then show ?case
    using sizeMath_nonneg [of "h msg"] by (simp add: queueBytes_Cons)
qed

lemma doCall_conserves:
  "used m = word_of_int (queueBytes h (buffer m))
     \<Longrightarrow> used (doCall h m c) = word_of_int (queueBytes h (buffer (doCall h m c)))"
proof (cases c)
  case (Push msg)
  assume "used m = word_of_int (queueBytes h (buffer m))"
  with Push show ?thesis
    by (simp add: pushMessage_def Let_def queueBytes_snoc messageSize_sum)
next
  case Next
  assume "used m = word_of_int (queueBytes h (buffer m))"
  with Next show ?thesis
    by (simp add: nextMessage_def split: list.splits)
next
  case Shift
  assume "used m = word_of_int (queueBytes h (buffer m))"
  with Shift show ?thesis
    by (simp add: shiftMessage_def queueBytes_Cons messageSize_sum split: list.splits)
qed

lemma doCalls_conserves:
  "used m = word_of_int (queueBytes h (buffer m))
     \<Longrightarrow> used (doCalls h m cs) = word_of_int (queueBytes h (buffer (doCalls h m cs)))"
  by (induction cs arbitrary: m) (simp_all add: doCall_conserves)

text \<open>
  C2, as amended. \<open>used\<close> is a Go \<^verbatim>\<open>int\<close> and the queue holds pointers. In every state
  that \<^verbatim>\<open>pushMessage\<close>, \<^verbatim>\<open>nextMessage\<close> and \<^verbatim>\<open>shiftMessage\<close> reach from \<^verbatim>\<open>NewMemory\<close>,
  in any number and order, while no queued message is changed from outside, \<open>used\<close> is
  the sum over the stored messages of the capacities of their parts, reduced to the
  width of \<^verbatim>\<open>int\<close>. Whenever that sum fits an \<^verbatim>\<open>int\<close>, \<open>used\<close> equals it and is not
  negative.
\<close>

theorem used_conservation:
  "used (doCalls h (NewMemory lim) cs)
     = (word_of_int (queueBytes h (buffer (doCalls h (NewMemory lim) cs))) :: 'w::len word)
   \<and> (queueBytes h (buffer (doCalls h (NewMemory (lim :: 'w word)) cs)) < 2 ^ (LENGTH('w) - 1)
        \<longrightarrow> sint (used (doCalls h (NewMemory lim) cs))
              = queueBytes h (buffer (doCalls h (NewMemory lim) cs))
            \<and> 0 \<le> sint (used (doCalls h (NewMemory lim) cs)))"
proof -
  let ?m = "doCalls h (NewMemory lim) cs"
  have "used (NewMemory lim) = word_of_int (queueBytes h (buffer (NewMemory lim)))"
    by (simp add: NewMemory_def queueBytes_def)
  then have u: "used ?m = word_of_int (queueBytes h (buffer ?m))"
    by (rule doCalls_conserves)
  have n: "0 \<le> queueBytes h (buffer ?m)" by (rule queueBytes_nonneg)
  have "queueBytes h (buffer ?m) < 2 ^ (LENGTH('w) - 1)
      \<longrightarrow> sint (used ?m) = queueBytes h (buffer ?m) \<and> 0 \<le> sint (used ?m)"
  proof
    assume b: "queueBytes h (buffer ?m) < 2 ^ (LENGTH('w) - 1)"
    have "- (2 ^ (LENGTH('w) - 1)) \<le> queueBytes h (buffer ?m)"
      using n by (smt (verit) zero_le_power)
    then have "sint (word_of_int (queueBytes h (buffer ?m)) :: 'w word) = queueBytes h (buffer ?m)"
      using b by (rule sint_exact)
    with u n show "sint (used ?m) = queueBytes h (buffer ?m) \<and> 0 \<le> sint (used ?m)"
      by simp
  qed
  with u show ?thesis by (rule conjI)
qed

theorem used_conservation_witness:
  "queueBytes (oneStore oneByte)
     (buffer (doCalls (oneStore oneByte) (NewMemory (4 :: 64 word)) [Push 0, Shift, Shift, Next, Push 1, Push 2]))
     < 2 ^ (LENGTH(64) - 1)
   \<and> sint (used (doCalls (oneStore oneByte) (NewMemory (4 :: 64 word))
        [Push 0, Shift, Shift, Next, Push 1, Push 2])) = 2"
proof -
  let ?cs = "[Push 0, Shift, Shift, Next, Push 1, Push 2]"
  have q: "queueBytes (oneStore oneByte)
     (buffer (doCalls (oneStore oneByte) (NewMemory (4 :: 64 word)) ?cs)) = 2"
    by (simp add: NewMemory_def pushMessage_def shiftMessage_def nextMessage_def Let_def
        queueBytes_def sizeMath_def cap_def oneStore_def oneByte_def)
  then have b: "queueBytes (oneStore oneByte)
     (buffer (doCalls (oneStore oneByte) (NewMemory (4 :: 64 word)) ?cs)) < 2 ^ (LENGTH(64) - 1)"
    by simp
  from used_conservation [of "oneStore oneByte" "4 :: 64 word" ?cs, THEN conjunct2, rule_format, OF b] q b
  show ?thesis by simp
qed

text \<open>
  C2 as stated fails in two ways. On a 32-bit platform two pushes of a message of
  capacity \<open>2\<^sup>3\<^sup>0\<close> leave \<open>used\<close> at \<open>-2\<^sup>3\<^sup>1\<close>, while the stored capacities sum to \<open>2\<^sup>3\<^sup>1\<close>. And
  \<^verbatim>\<open>shiftMessage\<close> measures the message behind the pointer again: a message pushed with
  capacity 1 that has capacity 100 when it is removed leaves \<open>used\<close> at \<open>-99\<close> with the
  queue empty.
\<close>

theorem used_conservation_counterexample:
  "sint (used (doCalls (oneStore gib) (NewMemory (10 :: 32 word)) [Push 0, Push 1])) = - 2147483648
   \<and> queueBytes (oneStore gib)
        (buffer (doCalls (oneStore gib) (NewMemory (10 :: 32 word)) [Push 0, Push 1])) = 2147483648
   \<and> sint (used (doCalls (oneStore hundred)
        (doCalls (oneStore oneByte) (NewMemory (10 :: 64 word)) [Push 0]) [Shift])) = - 99
   \<and> queueBytes (oneStore hundred) (buffer (doCalls (oneStore hundred)
        (doCalls (oneStore oneByte) (NewMemory (10 :: 64 word)) [Push 0]) [Shift])) = 0"
  by (simp add: NewMemory_def pushMessage_def shiftMessage_def messageSize_def Let_def
      queueBytes_def sizeMath_def cap_def oneStore_def oneByte_def gib_def hundred_def)

text \<open>
  C3, as amended. \<^verbatim>\<open>pushMessage\<close> takes as the size of the message the sum of the
  capacities of its parts, appends the pointer at the tail, adds the size to \<open>used\<close>,
  both in Go \<^verbatim>\<open>int\<close>, which wraps around, and returns true exactly when \<open>used\<close> after the
  addition, read as a signed \<^verbatim>\<open>int\<close>, is strictly above the limit. Whenever \<open>used\<close> plus
  the sum of the capacities fits an \<^verbatim>\<open>int\<close>, \<open>used\<close> grows by exactly that sum and the
  result is true exactly when \<open>used\<close> plus the sum is strictly above the limit.
\<close>

theorem pushMessage_spec:
  "pushMessage h m msg =
     (sint (used m + word_of_int (sizeMath (h msg))) > sint (limit m),
      m\<lparr> used := used m + word_of_int (sizeMath (h msg)), buffer := buffer m @ [msg] \<rparr>)
   \<and> (sint (used (m :: 'w::len Memory)) + sizeMath (h msg) < 2 ^ (LENGTH('w) - 1) \<longrightarrow>
        sint (used (snd (pushMessage h m msg))) = sint (used m) + sizeMath (h msg)
        \<and> fst (pushMessage h m msg) = (sint (used m) + sizeMath (h msg) > sint (limit m)))"
proof -
  have a: "pushMessage h m msg =
     (sint (used m + word_of_int (sizeMath (h msg))) > sint (limit m),
      m\<lparr> used := used m + word_of_int (sizeMath (h msg)), buffer := buffer m @ [msg] \<rparr>)"
    by (simp add: pushMessage_def Let_def messageSize_sum)
  have b: "sint (used m) + sizeMath (h msg) < 2 ^ (LENGTH('w) - 1) \<longrightarrow>
        sint (used (snd (pushMessage h m msg))) = sint (used m) + sizeMath (h msg)
        \<and> fst (pushMessage h m msg) = (sint (used m) + sizeMath (h msg) > sint (limit m))"
  proof
    assume r: "sint (used m) + sizeMath (h msg) < 2 ^ (LENGTH('w) - 1)"
    have "- (2 ^ (LENGTH('w) - 1)) \<le> sint (used m)" by (rule sint_ge)
    then have "- (2 ^ (LENGTH('w) - 1)) \<le> sint (used m) + sizeMath (h msg)"
      using sizeMath_nonneg [of "h msg"] by linarith
    then have "sint (used m + word_of_int (sizeMath (h msg))) = sint (used m) + sizeMath (h msg)"
      using r by (rule sint_add_exact)
    then show "sint (used (snd (pushMessage h m msg))) = sint (used m) + sizeMath (h msg)
        \<and> fst (pushMessage h m msg) = (sint (used m) + sizeMath (h msg) > sint (limit m))"
      by (simp add: a)
  qed
  from a b show ?thesis by (rule conjI)
qed

theorem pushMessage_spec_witness:
  "sint (used (NewMemory (4 :: 64 word))) + sizeMath (oneStore hundred 0) < 2 ^ (LENGTH(64) - 1)
   \<and> fst (pushMessage (oneStore hundred) (NewMemory (4 :: 64 word)) 0) = True
   \<and> sint (used (snd (pushMessage (oneStore hundred) (NewMemory (4 :: 64 word)) 0))) = 100
   \<and> fst (pushMessage (oneStore hundred) (NewMemory (100 :: 64 word)) 0) = False"
proof -
  have r: "sint (used (NewMemory (lim :: 64 word))) + sizeMath (oneStore hundred 0) < 2 ^ (LENGTH(64) - 1)"
    for lim
    by (simp add: NewMemory_def sizeMath_def oneStore_def hundred_def cap_def)
  note a = pushMessage_spec [of "oneStore hundred" "NewMemory (4 :: 64 word)" 0, THEN conjunct2,
      rule_format, OF r]
  note b = pushMessage_spec [of "oneStore hundred" "NewMemory (100 :: 64 word)" 0, THEN conjunct2,
      rule_format, OF r]
  from a b r [of 4] show ?thesis
    by (simp add: NewMemory_def sizeMath_def oneStore_def hundred_def cap_def)
qed

text \<open>
  C3 as stated fails when the addition wraps. On a 32-bit platform, with limit 10 and
  nothing queued, a message of two parts of capacity \<open>2\<^sup>3\<^sup>0\<close> each has size \<open>2\<^sup>3\<^sup>1\<close>, far above
  the limit; \<^verbatim>\<open>pushMessage\<close> leaves \<open>used\<close> at \<open>-2\<^sup>3\<^sup>1\<close> and returns false.
\<close>

theorem pushMessage_counterexample:
  "sizeMath (oneStore twoGib 0) = 2147483648
   \<and> fst (pushMessage (oneStore twoGib) (NewMemory (10 :: 32 word)) 0) = False
   \<and> sint (used (snd (pushMessage (oneStore twoGib) (NewMemory (10 :: 32 word)) 0))) = - 2147483648
   \<and> sint (used (NewMemory (10 :: 32 word))) + sizeMath (oneStore twoGib 0)
       > sint (limit (NewMemory (10 :: 32 word)))"
  by (simp add: NewMemory_def pushMessage_def messageSize_def Let_def
      sizeMath_def cap_def oneStore_def twoGib_def)

text \<open>
  C9. \<^verbatim>\<open>nextMessage\<close> returns \<^verbatim>\<open>ErrOutOfBounds\<close> exactly when the queue is empty and
  the head message otherwise; it leaves the whole state, so the queue and \<open>used\<close>, as
  they were. \<^verbatim>\<open>shiftMessage\<close> on an empty queue changes nothing.
\<close>

theorem nextMessage_spec:
  "(fst (nextMessage m) = Inl ErrOutOfBounds) = (buffer m = [])
   \<and> fst (nextMessage m) = (case buffer m of [] \<Rightarrow> Inl ErrOutOfBounds | msg # rest \<Rightarrow> Inr msg)
   \<and> snd (nextMessage m) = m
   \<and> shiftMessage h (m\<lparr>buffer := []\<rparr>) = m\<lparr>buffer := []\<rparr>"
  by (simp add: nextMessage_def shiftMessage_def split: list.splits)

theorem nextMessage_spec_witness:
  "fst (nextMessage (NewMemory (4 :: 64 word))) = Inl ErrOutOfBounds
   \<and> fst (nextMessage (snd (pushMessage (oneStore oneByte) (NewMemory (4 :: 64 word)) 7))) = Inr 7
   \<and> shiftMessage (oneStore oneByte) (NewMemory (4 :: 64 word)) = NewMemory 4"
  using nextMessage_spec [of "NewMemory (4 :: 64 word)" "oneStore oneByte"]
    nextMessage_spec [of "snd (pushMessage (oneStore oneByte) (NewMemory (4 :: 64 word)) 7)" "oneStore oneByte"]
  by (simp add: NewMemory_def pushMessage_def Let_def)

section \<open>Properties of the loops\<close>

subsection \<open>Counting responses\<close>

text \<open>
  Each step of \<^verbatim>\<open>loop\<close> keeps the balance: responses sent plus the response pending
  equal the messages accepted.
\<close>

lemma loopStep_count:
  "loopStep s ev = Some (Inr (s', out)) \<Longrightarrow>
     acks (emit out []) + (if responseOutPending s' then 1 else 0)
       = (if responseOutPending s then 1 else 0) + (if isRecvMessage ev then 1 else 0)"
  by (cases ev)
     (auto simp: loopStep_def acks_def inMsgChan_def outResChan_def NewSimpleResponse_def Let_def
           split: if_splits option.splits sum.splits)

lemma acks_emit: "acks (emit out outs) = acks (emit out []) + acks outs"
  by (cases out) (simp_all add: acks_def)

lemma loopRun_count:
  "loopRun s evs = Some (Inr (s', outs)) \<Longrightarrow>
     acks outs + (if responseOutPending s' then 1 else 0)
       = (if responseOutPending s then 1 else 0) + loopAccepted evs"
proof (induction evs arbitrary: s outs)
  case Nil
  then show ?case by (simp add: acks_def loopAccepted_def)
next
  case (Cons ev evs)
  from Cons.prems obtain s1 out outs1 where
    st: "loopStep s ev = Some (Inr (s1, out))" and
    rn: "loopRun s1 evs = Some (Inr (s', outs1))" and
    os: "outs = emit out outs1"
    by (auto split: option.splits sum.splits)
  have a: "acks (emit out []) + (if responseOutPending s1 then 1 else 0)
       = (if responseOutPending s then 1 else 0) + (if isRecvMessage ev then 1 else 0)"
    using st by (rule loopStep_count)
  have b: "acks outs1 + (if responseOutPending s' then 1 else 0)
       = (if responseOutPending s1 then 1 else 0) + loopAccepted evs"
    using rn by (rule Cons.IH)
  have c: "loopAccepted (ev # evs) = (if isRecvMessage ev then 1 else 0) + loopAccepted evs"
    by (simp add: loopAccepted_def)
  have d: "acks outs = acks (emit out []) + acks outs1"
    unfolding os by (rule acks_emit)
  from a b c d show ?case by linarith
qed

text \<open>The same balance for \<^verbatim>\<open>inputLoop\<close>, at each of its program points.\<close>

lemma inputStep_count:
  "settled l \<Longrightarrow> inputStep g l ev = Some (g', l', out) \<Longrightarrow>
     settled l' \<and>
     acks (emit out []) + owing l' = owing l + (if isInRecv (Input ev) then 1 else 0)"
  by (cases ev; cases "ipc l")
     (auto simp: acks_def settled_def owing_def NewSimpleResponse_def
           split: if_splits prod.splits)

subsection \<open>The limit\<close>

text \<open>
  \<^verbatim>\<open>outputLoop\<close> changes \<open>used\<close> only by \<^verbatim>\<open>shiftMessage\<close>, and an exact removal does not
  raise it. So what \<^verbatim>\<open>inputLoop\<close> found when it called \<^verbatim>\<open>limitReached\<close> still holds
  when it sends or receives, in every execution whose removals are exact.
\<close>

lemma limit_shiftMessage: "limit (shiftMessage h m) = limit m"
  by (simp add: shiftMessage_def split: list.splits)

lemma outputStep_used:
  "outputStep g l ev = Some (Inr (g', l', out)) \<Longrightarrow>
     acks (emit out []) = 0 \<and> limit (mem g') = limit (mem g) \<and> store g' = store g
     \<and> (if ev = OutTau \<and> opc l = OutShift then mem g' = shiftMessage (store g) (mem g)
         else used (mem g') = used (mem g))"
  by (cases ev; cases "opc l")
     (auto simp: acks_def nextMessage_def limit_shiftMessage
           split: if_splits prod.splits option.splits sum.splits list.splits)

lemma shiftExact_lowers:
  "shiftExact h m \<Longrightarrow> sint (used (shiftMessage h m)) \<le> sint (used m)"
proof (cases "buffer m")
  case Nil
  then show ?thesis by (simp add: shiftMessage_def)
next
  case (Cons msg rest)
  assume "shiftExact h m"
  with Cons have lo: "- (2 ^ (LENGTH('a) - 1)) \<le> sint (used m) - sizeMath (h msg)"
    by (simp add: shiftExact_def)
  have "sint (used m) - sizeMath (h msg) \<le> sint (used m)"
    using sizeMath_nonneg [of "h msg"] by simp
  moreover have "sint (used m) < 2 ^ (LENGTH('a) - 1)" by (rule sint_lt)
  ultimately have hi: "sint (used m) - sizeMath (h msg) < 2 ^ (LENGTH('a) - 1)" by linarith
  from lo hi have "sint (used m - word_of_int (sizeMath (h msg))) = sint (used m) - sizeMath (h msg)"
    by (rule sint_sub_exact)
  with Cons show ?thesis
    using sizeMath_nonneg [of "h msg"] by (simp add: shiftMessage_def messageSize_sum)
qed

lemma inputStep_underLimit:
  "(admits (ipc l) \<longrightarrow> \<not> limitReached (mem g)) \<Longrightarrow> inputStep g l ev = Some (g', l', out) \<Longrightarrow>
     (admits (ipc l') \<longrightarrow> \<not> limitReached (mem g'))"
  by (cases ev; cases "ipc l")
     (auto simp: limitReached_def pushMessage_def Let_def split: if_splits prod.splits)

lemma sysStep_underLimit:
  assumes u: "underLimit s"
    and x: "shiftsNow s ev \<Longrightarrow> shiftExact (store s) (mem s)"
    and st: "sysStep s ev = Some (Inr (s', out))"
  shows "underLimit s'"
proof (cases ev)
  case (Input iev)
  from st Input obtain g1 l1 where
    i: "inputStep (globalsOf s) (inp s) iev = Some (g1, l1, out)" and
    s': "s' = (setGlobals s g1)\<lparr> inp := l1 \<rparr>"
    by (auto split: option.splits)
  from u have "admits (ipc (inp s)) \<longrightarrow> \<not> limitReached (mem (globalsOf s))"
    by (simp add: underLimit_def globalsOf_def split: if_splits)
  then have "admits (ipc l1) \<longrightarrow> \<not> limitReached (mem g1)"
    using i by (rule inputStep_underLimit)
  then show ?thesis by (simp add: underLimit_def s' setGlobals_def)
next
  case (Output oev)
  from st Output obtain g1 l1 where
    o: "outputStep (globalsOf s) (outp s) oev = Some (Inr (g1, l1, out))" and
    s': "s' = (setGlobals s g1)\<lparr> outp := l1 \<rparr>"
    by (auto split: option.splits sum.splits)
  note f = outputStep_used [OF o]
  have le: "sint (used (mem g1)) \<le> sint (used (mem s))"
  proof (cases "oev = OutTau \<and> opc (outp s) = OutShift")
    case True
    with Output have "shiftsNow s ev" by (simp add: shiftsNow_def)
    then have "shiftExact (store s) (mem s)" by (rule x)
    then have "sint (used (shiftMessage (store s) (mem s))) \<le> sint (used (mem s))"
      by (rule shiftExact_lowers)
    with f True show ?thesis by (simp add: globalsOf_def)
  next
    case False
    with f show ?thesis by (auto simp: globalsOf_def)
  qed
  from f have "limit (mem g1) = limit (mem s)" by (simp add: globalsOf_def)
  with u le show ?thesis
    by (auto simp: underLimit_def s' setGlobals_def limitReached_def split: if_splits)
next
  case Close
  with st u show ?thesis
    by (auto simp: underLimit_def CloseAsync_def limitReached_def split: if_splits sum.splits)
next
  case (Change a msg)
  with st u show ?thesis
    by (auto simp: underLimit_def limitReached_def split: if_splits)
qed

lemma sysRun_underLimit:
  "underLimit s \<Longrightarrow> exactShifts s evs \<Longrightarrow> sysRun s evs = Some (Inr (s', outs))
     \<Longrightarrow> underLimit s'"
proof (induction evs arbitrary: s outs)
  case Nil
  then show ?case by simp
next
  case (Cons ev evs)
  from Cons.prems(3) obtain s1 out outs1 where
    st: "sysStep s ev = Some (Inr (s1, out))" and
    rn: "sysRun s1 evs = Some (Inr (s', outs1))"
    by (auto split: option.splits sum.splits)
  from Cons.prems(2) st have x: "shiftsNow s ev \<Longrightarrow> shiftExact (store s) (mem s)"
    and xs: "exactShifts s1 evs"
    by (simp_all split: if_splits)
  from Cons.prems(1) x st have "underLimit s1" by (rule sysStep_underLimit)
  then show ?case using xs rn by (rule Cons.IH)
qed

text \<open>The balance of responses over an execution of the two loops.\<close>

lemma sysStep_count:
  assumes u: "settled (inp s)" and st: "sysStep s ev = Some (Inr (s', out))"
  shows "settled (inp s') \<and>
     acks (emit out []) + owing (inp s') = owing (inp s) + (if isInRecv ev then 1 else 0)"
proof (cases ev)
  case (Input iev)
  from st Input obtain g1 l1 where
    i: "inputStep (globalsOf s) (inp s) iev = Some (g1, l1, out)" and
    s': "s' = (setGlobals s g1)\<lparr> inp := l1 \<rparr>"
    by (auto split: option.splits)
  from inputStep_count [OF u i] show ?thesis
    by (simp add: s' Input setGlobals_def)
next
  case (Output oev)
  from st Output obtain g1 l1 where
    o: "outputStep (globalsOf s) (outp s) oev = Some (Inr (g1, l1, out))" and
    s': "s' = (setGlobals s g1)\<lparr> outp := l1 \<rparr>"
    by (auto split: option.splits sum.splits)
  from outputStep_used [OF o] have "acks (emit out []) = 0" by simp
  with u show ?thesis by (simp add: s' Output setGlobals_def)
next
  case Close
  with st have "inp s' = inp s" and "out = None" by (auto split: sum.splits)
  with u Close show ?thesis by (simp add: acks_def)
next
  case (Change a msg)
  with st have "inp s' = inp s" and "out = None" by auto
  with u Change show ?thesis by (simp add: acks_def)
qed

lemma sysRun_count:
  "settled (inp s) \<Longrightarrow> sysRun s evs = Some (Inr (s', outs)) \<Longrightarrow>
     acks outs + owing (inp s') = owing (inp s) + sysAccepted evs"
proof (induction evs arbitrary: s outs)
  case Nil
  then show ?case by (simp add: acks_def sysAccepted_def)
next
  case (Cons ev evs)
  from Cons.prems(2) obtain s1 out outs1 where
    st: "sysStep s ev = Some (Inr (s1, out))" and
    rn: "sysRun s1 evs = Some (Inr (s', outs1))" and
    os: "outs = emit out outs1"
    by (auto split: option.splits sum.splits)
  from sysStep_count [OF Cons.prems(1) st] have
    a: "settled (inp s1)" and
    b: "acks (emit out []) + owing (inp s1) = owing (inp s) + (if isInRecv ev then 1 else 0)"
    by simp_all
  have c: "acks outs1 + owing (inp s') = owing (inp s1) + sysAccepted evs"
    using a rn by (rule Cons.IH)
  have d: "sysAccepted (ev # evs) = (if isInRecv ev then 1 else 0) + sysAccepted evs"
    by (simp add: sysAccepted_def)
  have e: "acks outs = acks (emit out []) + acks outs1"
    unfolding os by (rule acks_emit)
  from b c d e show ?case by linarith
qed

text \<open>
  What is sent to the producer is the success response, and the producer's channels
  are not selected while \<open>used\<close> exceeds the limit.
\<close>

lemma loopStep_ack:
  "loopStep s ev = Some (Inr (s', Some (ToProducer r))) \<Longrightarrow> r = None \<and> \<not> limitReached (mem s)"
  by (cases ev)
     (auto simp: loopStep_def outResChan_def NewSimpleResponse_def Let_def
           split: if_splits option.splits sum.splits)

lemma loopStep_closed_gate:
  "limitReached (mem s) \<Longrightarrow> loopStep s (RecvMessage msg) = None"
  by (simp add: loopStep_def inMsgChan_def)

lemma sysStep_ack_nil:
  "sysStep s ev = Some (Inr (s', Some (ToProducer r))) \<Longrightarrow> r = None \<and> admits (ipc (inp s))"
proof (cases ev)
  case (Input iev)
  assume st: "sysStep s ev = Some (Inr (s', Some (ToProducer r)))"
  from st Input obtain g1 l1 where
    i: "inputStep (globalsOf s) (inp s) iev = Some (g1, l1, Some (ToProducer r))"
    by (auto split: option.splits)
  then show "r = None \<and> admits (ipc (inp s))"
    by (cases iev; cases "ipc (inp s)")
       (auto simp: NewSimpleResponse_def split: if_splits prod.splits)
next
  case (Output oev)
  assume st: "sysStep s ev = Some (Inr (s', Some (ToProducer r)))"
  from st Output obtain g1 l1 where
    o: "outputStep (globalsOf s) (outp s) oev = Some (Inr (g1, l1, Some (ToProducer r)))"
    by (auto split: option.splits sum.splits)
  from outputStep_used [OF o] show ?thesis by (simp add: acks_def)
next
  case Close
  assume "sysStep s ev = Some (Inr (s', Some (ToProducer r)))"
  with Close show ?thesis by (simp split: sum.splits)
next
  case (Change a msg)
  assume "sysStep s ev = Some (Inr (s', Some (ToProducer r)))"
  with Change show ?thesis by simp
qed

lemma sysStep_ack:
  "underLimit s \<Longrightarrow> sysStep s ev = Some (Inr (s', Some (ToProducer r))) \<Longrightarrow>
     r = None \<and> \<not> limitReached (mem s)"
  using sysStep_ack_nil [of s ev s' r] by (simp add: underLimit_def split: if_splits)

lemma sysStep_closed_gate:
  "underLimit s \<Longrightarrow> limitReached (mem s) \<Longrightarrow> sysStep s (Input (InRecv msg)) = None"
  by (cases "ipc (inp s)") (auto simp: underLimit_def split: if_splits)

subsection \<open>What the loops do next\<close>

text \<open>
  While it runs and \<open>used\<close> is within the limit, \<^verbatim>\<open>loop\<close> offers the pending response,
  or else receives; \<^verbatim>\<open>inputLoop\<close> at the head of its loop sends the pending response
  and reaches its receive, or else receives at once. While \<open>used\<close> exceeds the limit
  \<^verbatim>\<open>inputLoop\<close> goes round its loop and changes nothing.
\<close>

lemma loop_pending_response_enabled:
  "lrunning s \<Longrightarrow> responseOutPending s \<Longrightarrow> \<not> limitReached (mem s) \<Longrightarrow>
     loopStep s SendResponse
       = Some (Inr (s\<lparr> responseOutPending := False \<rparr>, Some (ToProducer None)))"
  by (simp add: loopStep_def outResChan_def NewSimpleResponse_def)

lemma loop_accept_enabled:
  "lrunning s \<Longrightarrow> \<not> responseOutPending s \<Longrightarrow> \<not> limitReached (mem s)
     \<Longrightarrow> messagesIn (mem s) \<noteq> None \<Longrightarrow>
     loopStep s (RecvMessage msg)
       = Some (Inr (s\<lparr> mem := snd (pushMessage ((store s)(fresh s := msg)) (mem s) (fresh s)),
                        store := (store s)(fresh s := msg), fresh := Suc (fresh s),
                        responseOutPending := True \<rparr>, None))"
  by (simp add: loopStep_def inMsgChan_def Let_def)

lemma inputLoop_pending_response_sent:
  "ipc (inp s) = InHead \<Longrightarrow> responsePending (inp s) \<Longrightarrow> running (mem s) = 1
     \<Longrightarrow> \<not> limitReached (mem s) \<Longrightarrow>
     sysRun s [Input InTau, Input InTau, Input InSend]
       = Some (Inr (s\<lparr> inp := \<lparr> ipc = InReceive, responsePending = False \<rparr> \<rparr>,
                    [ToProducer None]))"
  by (simp add: globalsOf_def setGlobals_def NewSimpleResponse_def)

lemma inputLoop_immediate_response_sent:
  "ipc (inp s) = InRespond \<Longrightarrow>
     sysStep s (Input InSend)
       = Some (Inr (s\<lparr> inp := (inp s)\<lparr> ipc := InHead \<rparr> \<rparr>, Some (ToProducer None)))"
  by (simp add: globalsOf_def setGlobals_def NewSimpleResponse_def)

lemma inputLoop_accept_enabled:
  "ipc (inp s) = InHead \<Longrightarrow> \<not> responsePending (inp s) \<Longrightarrow> running (mem s) = 1
     \<Longrightarrow> \<not> limitReached (mem s) \<Longrightarrow> messagesIn (mem s) \<noteq> None \<Longrightarrow>
     sysRun s [Input InTau, Input InTau, Input (InRecv msg)]
       = Some (Inr (s\<lparr> store := (store s)(fresh s := msg), fresh := Suc (fresh s),
                        inp := \<lparr> ipc = InPush (fresh s), responsePending = False \<rparr> \<rparr>, []))"
  by (simp add: globalsOf_def setGlobals_def)

lemma inputLoop_waits:
  "ipc (inp s) = InHead \<Longrightarrow> running (mem s) = 1 \<Longrightarrow> limitReached (mem s) \<Longrightarrow>
     sysRun s [Input InTau, Input InTau, Input InTau] = Some (Inr (s, []))"
  by (simp add: globalsOf_def setGlobals_def)

subsection \<open>Backpressure\<close>

text \<open>The definitions a concrete execution is evaluated with.\<close>

lemmas run_defs =
  sysInit_def loopInit_def started_def started32_def StartListening_def StartReceiving_def
  NewMemory_def globalsOf_def setGlobals_def limitReached_def pushMessage_def shiftMessage_def
  nextMessage_def messageSize_def cap_def Let_def oneByte_def emptyStore_def
  NewSimpleResponse_def CloseAsync_def loopStep_def inMsgChan_def outResChan_def
  outMsgChan_def nextMsg_def errChan_def mapExists_def mapAssign_def

text \<open>
  \<^verbatim>\<open>loop\<close> offers the head of the queue to the consumer whatever \<open>used\<close> is.
\<close>

lemma loop_consumption_enabled:
  "lrunning s \<Longrightarrow> \<not> responseInPending s \<Longrightarrow> buffer (mem s) = a # rest \<Longrightarrow>
     loopStep s SendMessage
       = Some (Inr (s\<lparr> responseInPending := True \<rparr>, Some (ToConsumer (store s a))))"
  by (simp add: loopStep_def outMsgChan_def nextMsg_def)

text \<open>
  C4 as stated fails for the two loops when a removal wraps \<open>used\<close> around. On a 32-bit
  platform with limit \<open>2\<^sup>3\<^sup>0\<close>: a message of capacity 1 is accepted and answered; a message
  of capacity \<open>2\<^sup>3\<^sup>1 - 1\<close> is accepted, which takes \<open>used\<close> to \<open>-2\<^sup>3\<^sup>1\<close>, so it is answered at
  once and \<^verbatim>\<open>inputLoop\<close> goes on to its receive; the consumer takes the first message
  and \<^verbatim>\<open>shiftMessage\<close> takes \<open>used\<close> to \<open>2\<^sup>3\<^sup>1 - 1\<close>, above the limit. \<^verbatim>\<open>inputLoop\<close>, already
  waiting at its receive, accepts the next message all the same.
\<close>

theorem backpressure_counterexample:
  "sysRun (sysInit (started32 1073741824) emptyStore 0)
     [Input InTau, Input InTau, Input (InRecv oneByte), Input InTau, Input InSend,
      Input InTau, Input InTau, Input (InRecv almostTwoGib), Input InTau, Input InSend,
      Input InTau, Input InTau,
      Output OutTau, Output OutTau, Output OutSendMessage, Output (OutRecv None), Output OutTau]
   = Some (Inr (\<lparr> mem = (started32 1073741824)\<lparr> buffer := [1], used := 2147483647 \<rparr>,
                   store = emptyStore(0 := oneByte, 1 := almostTwoGib), fresh = 2,
                   inp = \<lparr> ipc = InReceive, responsePending = False \<rparr>,
                   outp = \<lparr> opc = OutErrors, omsg = None, errMap = None, errs = [] \<rparr> \<rparr>,
                [ToProducer None, ToProducer None, ToConsumer oneByte]))
   \<and> limitReached ((started32 1073741824)\<lparr> buffer := [1], used := 2147483647 \<rparr>)
   \<and> sysStep \<lparr> mem = (started32 1073741824)\<lparr> buffer := [1], used := 2147483647 \<rparr>,
               store = emptyStore(0 := oneByte, 1 := almostTwoGib), fresh = 2,
               inp = \<lparr> ipc = InReceive, responsePending = False \<rparr>,
               outp = \<lparr> opc = OutErrors, omsg = None, errMap = None, errs = [] \<rparr> \<rparr>
        (Input (InRecv oneByte))
     = Some (Inr (\<lparr> mem = (started32 1073741824)\<lparr> buffer := [1], used := 2147483647 \<rparr>,
                     store = emptyStore(0 := oneByte, 1 := almostTwoGib, 2 := oneByte), fresh = 3,
                     inp = \<lparr> ipc = InPush 2, responsePending = False \<rparr>,
                     outp = \<lparr> opc = OutErrors, omsg = None, errMap = None, errs = [] \<rparr> \<rparr>,
                  None))"
  by (simp add: run_defs almostTwoGib_def)

text \<open>
  C4, as amended. In every state of \<^verbatim>\<open>loop\<close>, while \<open>used\<close> exceeds the limit neither a
  message is accepted from the producer nor a response sent to it, and every response
  sent is the success response, sent while \<open>used\<close> does not exceed the limit. Every
  response \<^verbatim>\<open>inputLoop\<close> sends is the success response; and in every state that
  \<^verbatim>\<open>inputLoop\<close> and \<^verbatim>\<open>outputLoop\<close>, running side by side, reach by an execution whose
  removals are exact, no message is accepted while \<open>used\<close> exceeds the limit and a
  response is sent only while \<open>used\<close> does not exceed it. The producer is delayed and no
  more: while the loop runs and \<open>used\<close> is within the limit, \<^verbatim>\<open>loop\<close> sends the pending
  response as soon as the producer takes it and, with none pending, accepts the next
  message; \<^verbatim>\<open>inputLoop\<close> at the head of its loop sends the pending response before it
  receives and, with none pending, receives. While \<open>used\<close> exceeds the limit
  \<^verbatim>\<open>inputLoop\<close> goes round its loop keeping the pending response, \<^verbatim>\<open>loop\<close> goes on
  offering the head of the queue to the consumer, and an exact removal does not raise
  \<open>used\<close>.
\<close>

theorem backpressure:
  "(limitReached (mem s) \<longrightarrow>
      loopStep s (RecvMessage msg) = None \<and> loopStep s SendResponse = None)
   \<and> (loopStep s ev = Some (Inr (s', Some (ToProducer r))) \<longrightarrow>
        r = None \<and> \<not> limitReached (mem s))
   \<and> (sysRun (sysInit m h n) evs = Some (Inr (t, outs)) \<and> exactShifts (sysInit m h n) evs
        \<and> limitReached (mem t)
        \<longrightarrow> sysStep t (Input (InRecv msg)) = None)
   \<and> (sysStep t sev = Some (Inr (t', Some (ToProducer r'))) \<longrightarrow> r' = None)
   \<and> (sysRun (sysInit m h n) evs = Some (Inr (t, outs)) \<and> exactShifts (sysInit m h n) evs
        \<and> sysStep t sev = Some (Inr (t', Some (ToProducer r')))
        \<longrightarrow> \<not> limitReached (mem t))
   \<and> (lrunning s \<and> responseOutPending s \<and> \<not> limitReached (mem s) \<longrightarrow>
        loopStep s SendResponse
          = Some (Inr (s\<lparr> responseOutPending := False \<rparr>, Some (ToProducer None))))
   \<and> (lrunning s \<and> \<not> responseOutPending s \<and> \<not> limitReached (mem s)
        \<and> messagesIn (mem s) \<noteq> None \<longrightarrow>
        loopStep s (RecvMessage msg)
          = Some (Inr (s\<lparr> mem := snd (pushMessage ((store s)(fresh s := msg)) (mem s) (fresh s)),
                           store := (store s)(fresh s := msg), fresh := Suc (fresh s),
                           responseOutPending := True \<rparr>, None)))
   \<and> (ipc (inp t) = InHead \<and> responsePending (inp t) \<and> running (mem t) = 1
        \<and> \<not> limitReached (mem t) \<longrightarrow>
        sysRun t [Input InTau, Input InTau, Input InSend]
          = Some (Inr (t\<lparr> inp := \<lparr> ipc = InReceive, responsePending = False \<rparr> \<rparr>,
                       [ToProducer None])))
   \<and> (ipc (inp t) = InHead \<and> \<not> responsePending (inp t) \<and> running (mem t) = 1
        \<and> \<not> limitReached (mem t) \<and> messagesIn (mem t) \<noteq> None \<longrightarrow>
        sysRun t [Input InTau, Input InTau, Input (InRecv msg)]
          = Some (Inr (t\<lparr> store := (store t)(fresh t := msg), fresh := Suc (fresh t),
                           inp := \<lparr> ipc = InPush (fresh t), responsePending = False \<rparr> \<rparr>, [])))
   \<and> (ipc (inp t) = InHead \<and> running (mem t) = 1 \<and> limitReached (mem t) \<longrightarrow>
        sysRun t [Input InTau, Input InTau, Input InTau] = Some (Inr (t, [])))
   \<and> (lrunning s \<and> limitReached (mem s) \<and> \<not> responseInPending s \<and> buffer (mem s) = a # rest
        \<longrightarrow>
        loopStep s SendMessage
          = Some (Inr (s\<lparr> responseInPending := True \<rparr>, Some (ToConsumer (store s a)))))
   \<and> (shiftExact h m \<longrightarrow> sint (used (shiftMessage h m)) \<le> sint (used m))"
proof -
  have i: "underLimit (sysInit m h n)"
    by (simp add: underLimit_def sysInit_def)
  have u: "sysRun (sysInit m h n) evs = Some (Inr (t, outs)) \<Longrightarrow> exactShifts (sysInit m h n) evs
      \<Longrightarrow> underLimit t"
    using i by (rule sysRun_underLimit)
  have a: "limitReached (mem s) \<longrightarrow>
      loopStep s (RecvMessage msg) = None \<and> loopStep s SendResponse = None"
    by (simp add: loopStep_def inMsgChan_def outResChan_def)
  have b: "loopStep s ev = Some (Inr (s', Some (ToProducer r))) \<longrightarrow>
        r = None \<and> \<not> limitReached (mem s)"
    by (rule impI) (rule loopStep_ack)
  have c: "sysRun (sysInit m h n) evs = Some (Inr (t, outs)) \<and> exactShifts (sysInit m h n) evs
        \<and> limitReached (mem t)
        \<longrightarrow> sysStep t (Input (InRecv msg)) = None"
  proof
    assume hyp: "sysRun (sysInit m h n) evs = Some (Inr (t, outs))
        \<and> exactShifts (sysInit m h n) evs \<and> limitReached (mem t)"
    then have "underLimit t" using u by simp
    moreover from hyp have "limitReached (mem t)" by simp
    ultimately show "sysStep t (Input (InRecv msg)) = None" by (rule sysStep_closed_gate)
  qed
  have d1: "sysStep t sev = Some (Inr (t', Some (ToProducer r'))) \<longrightarrow> r' = None"
    using sysStep_ack_nil [of t sev t' r'] by simp
  have d2: "sysRun (sysInit m h n) evs = Some (Inr (t, outs)) \<and> exactShifts (sysInit m h n) evs
        \<and> sysStep t sev = Some (Inr (t', Some (ToProducer r')))
        \<longrightarrow> \<not> limitReached (mem t)"
  proof
    assume hyp: "sysRun (sysInit m h n) evs = Some (Inr (t, outs))
        \<and> exactShifts (sysInit m h n) evs
        \<and> sysStep t sev = Some (Inr (t', Some (ToProducer r')))"
    then have "underLimit t" using u by simp
    moreover from hyp have "sysStep t sev = Some (Inr (t', Some (ToProducer r')))" by simp
    ultimately have "r' = None \<and> \<not> limitReached (mem t)" by (rule sysStep_ack)
    then show "\<not> limitReached (mem t)" by simp
  qed
  have e: "lrunning s \<and> responseOutPending s \<and> \<not> limitReached (mem s) \<longrightarrow>
        loopStep s SendResponse
          = Some (Inr (s\<lparr> responseOutPending := False \<rparr>, Some (ToProducer None)))"
  proof
    assume "lrunning s \<and> responseOutPending s \<and> \<not> limitReached (mem s)"
    then show "loopStep s SendResponse
          = Some (Inr (s\<lparr> responseOutPending := False \<rparr>, Some (ToProducer None)))"
      by (intro loop_pending_response_enabled) simp_all
  qed
  have f: "lrunning s \<and> \<not> responseOutPending s \<and> \<not> limitReached (mem s)
        \<and> messagesIn (mem s) \<noteq> None \<longrightarrow>
        loopStep s (RecvMessage msg)
          = Some (Inr (s\<lparr> mem := snd (pushMessage ((store s)(fresh s := msg)) (mem s) (fresh s)),
                           store := (store s)(fresh s := msg), fresh := Suc (fresh s),
                           responseOutPending := True \<rparr>, None))"
  proof
    assume "lrunning s \<and> \<not> responseOutPending s \<and> \<not> limitReached (mem s)
        \<and> messagesIn (mem s) \<noteq> None"
    then show "loopStep s (RecvMessage msg)
          = Some (Inr (s\<lparr> mem := snd (pushMessage ((store s)(fresh s := msg)) (mem s) (fresh s)),
                           store := (store s)(fresh s := msg), fresh := Suc (fresh s),
                           responseOutPending := True \<rparr>, None))"
      by (intro loop_accept_enabled) simp_all
  qed
  have g: "ipc (inp t) = InHead \<and> responsePending (inp t) \<and> running (mem t) = 1
        \<and> \<not> limitReached (mem t) \<longrightarrow>
        sysRun t [Input InTau, Input InTau, Input InSend]
          = Some (Inr (t\<lparr> inp := \<lparr> ipc = InReceive, responsePending = False \<rparr> \<rparr>,
                       [ToProducer None]))"
  proof
    assume "ipc (inp t) = InHead \<and> responsePending (inp t) \<and> running (mem t) = 1
        \<and> \<not> limitReached (mem t)"
    then show "sysRun t [Input InTau, Input InTau, Input InSend]
          = Some (Inr (t\<lparr> inp := \<lparr> ipc = InReceive, responsePending = False \<rparr> \<rparr>,
                       [ToProducer None]))"
      by (intro inputLoop_pending_response_sent) simp_all
  qed
  have k: "ipc (inp t) = InHead \<and> \<not> responsePending (inp t) \<and> running (mem t) = 1
        \<and> \<not> limitReached (mem t) \<and> messagesIn (mem t) \<noteq> None \<longrightarrow>
        sysRun t [Input InTau, Input InTau, Input (InRecv msg)]
          = Some (Inr (t\<lparr> store := (store t)(fresh t := msg), fresh := Suc (fresh t),
                           inp := \<lparr> ipc = InPush (fresh t), responsePending = False \<rparr> \<rparr>, []))"
  proof
    assume "ipc (inp t) = InHead \<and> \<not> responsePending (inp t) \<and> running (mem t) = 1
        \<and> \<not> limitReached (mem t) \<and> messagesIn (mem t) \<noteq> None"
    then show "sysRun t [Input InTau, Input InTau, Input (InRecv msg)]
          = Some (Inr (t\<lparr> store := (store t)(fresh t := msg), fresh := Suc (fresh t),
                           inp := \<lparr> ipc = InPush (fresh t), responsePending = False \<rparr> \<rparr>, []))"
      by (intro inputLoop_accept_enabled) simp_all
  qed
  have w: "ipc (inp t) = InHead \<and> running (mem t) = 1 \<and> limitReached (mem t) \<longrightarrow>
        sysRun t [Input InTau, Input InTau, Input InTau] = Some (Inr (t, []))"
  proof
    assume "ipc (inp t) = InHead \<and> running (mem t) = 1 \<and> limitReached (mem t)"
    then show "sysRun t [Input InTau, Input InTau, Input InTau] = Some (Inr (t, []))"
      by (intro inputLoop_waits) simp_all
  qed
  have o: "lrunning s \<and> limitReached (mem s) \<and> \<not> responseInPending s \<and> buffer (mem s) = a # rest
        \<longrightarrow>
        loopStep s SendMessage
          = Some (Inr (s\<lparr> responseInPending := True \<rparr>, Some (ToConsumer (store s a))))"
  proof
    assume "lrunning s \<and> limitReached (mem s) \<and> \<not> responseInPending s \<and> buffer (mem s) = a # rest"
    then show "loopStep s SendMessage
          = Some (Inr (s\<lparr> responseInPending := True \<rparr>, Some (ToConsumer (store s a))))"
      by (intro loop_consumption_enabled) simp_all
  qed
  have p: "shiftExact h m \<longrightarrow> sint (used (shiftMessage h m)) \<le> sint (used m)"
    by (rule impI) (rule shiftExact_lowers)
  note r9 = conjI [OF o p]
  note r8 = conjI [OF w r9]
  note r7' = conjI [OF k r8]
  note r7 = conjI [OF g r7']
  note r6 = conjI [OF f r7]
  note r5 = conjI [OF e r6]
  note r4 = conjI [OF d2 r5]
  note r4' = conjI [OF d1 r4]
  note r3 = conjI [OF c r4']
  note r2 = conjI [OF b r3]
  show ?thesis by (rule conjI [OF a r2])
qed

theorem backpressure_witness:
  "limitReached (mem (loopInit (snd (pushMessage (oneStore oneByte) (started 0) 0))
        (oneStore oneByte) 1))
   \<and> loopStep (loopInit (snd (pushMessage (oneStore oneByte) (started 0) 0)) (oneStore oneByte) 1)
        (RecvMessage oneByte) = None
   \<and> loopStep ((loopInit (started 10) emptyStore 0)\<lparr> responseOutPending := True \<rparr>) SendResponse
       = Some (Inr (loopInit (started 10) emptyStore 0, Some (ToProducer None)))
   \<and> \<not> limitReached (mem ((loopInit (started 10) emptyStore 0)\<lparr> responseOutPending := True \<rparr>))
   \<and> sysRun (sysInit (started 0) emptyStore 0)
        [Input InTau, Input InTau, Input (InRecv oneByte), Input InTau]
       = Some (Inr ((sysInit ((started 0)\<lparr> buffer := [0], used := 1 \<rparr>)
                            (emptyStore(0 := oneByte)) 1)
                      \<lparr> inp := \<lparr> ipc = InHead, responsePending = True \<rparr> \<rparr>, []))
   \<and> exactShifts (sysInit (started 0) emptyStore 0)
        [Input InTau, Input InTau, Input (InRecv oneByte), Input InTau]
   \<and> limitReached (mem ((sysInit ((started 0)\<lparr> buffer := [0], used := 1 \<rparr>)
                            (emptyStore(0 := oneByte)) 1)
                      \<lparr> inp := \<lparr> ipc = InHead, responsePending = True \<rparr> \<rparr>))
   \<and> sysStep ((sysInit ((started 0)\<lparr> buffer := [0], used := 1 \<rparr>) (emptyStore(0 := oneByte)) 1)
                      \<lparr> inp := \<lparr> ipc = InHead, responsePending = True \<rparr> \<rparr>)
         (Input (InRecv oneByte)) = None
   \<and> sysRun (sysInit (started 10) emptyStore 0)
        [Input InTau, Input InTau, Input (InRecv oneByte), Input InTau]
       = Some (Inr ((sysInit ((started 10)\<lparr> buffer := [0], used := 1 \<rparr>)
                            (emptyStore(0 := oneByte)) 1)
                      \<lparr> inp := \<lparr> ipc = InRespond, responsePending = False \<rparr> \<rparr>, []))
   \<and> exactShifts (sysInit (started 10) emptyStore 0)
        [Input InTau, Input InTau, Input (InRecv oneByte), Input InTau]
   \<and> sysStep ((sysInit ((started 10)\<lparr> buffer := [0], used := 1 \<rparr>) (emptyStore(0 := oneByte)) 1)
                      \<lparr> inp := \<lparr> ipc = InRespond, responsePending = False \<rparr> \<rparr>) (Input InSend)
       = Some (Inr (sysInit ((started 10)\<lparr> buffer := [0], used := 1 \<rparr>) (emptyStore(0 := oneByte)) 1,
                    Some (ToProducer None)))
   \<and> \<not> limitReached (mem ((sysInit ((started 10)\<lparr> buffer := [0], used := 1 \<rparr>)
                            (emptyStore(0 := oneByte)) 1)
                      \<lparr> inp := \<lparr> ipc = InRespond, responsePending = False \<rparr> \<rparr>))
   \<and> loopStep (loopInit (started 10) emptyStore 0) (RecvMessage oneByte)
       = Some (Inr ((loopInit ((started 10)\<lparr> buffer := [0], used := 1 \<rparr>)
                            (emptyStore(0 := oneByte)) 1)
                      \<lparr> responseOutPending := True \<rparr>, None))
   \<and> sysRun ((sysInit (started 10) emptyStore 0)\<lparr> inp := \<lparr> ipc = InHead, responsePending = True \<rparr> \<rparr>)
        [Input InTau, Input InTau, Input InSend]
       = Some (Inr ((sysInit (started 10) emptyStore 0)
                      \<lparr> inp := \<lparr> ipc = InReceive, responsePending = False \<rparr> \<rparr>, [ToProducer None]))
   \<and> sysRun (sysInit (started 10) emptyStore 0)
        [Input InTau, Input InTau, Input (InRecv oneByte)]
       = Some (Inr ((sysInit (started 10) (emptyStore(0 := oneByte)) 1)
                      \<lparr> inp := \<lparr> ipc = InPush 0, responsePending = False \<rparr> \<rparr>, []))
   \<and> sysRun ((sysInit ((started 0)\<lparr> buffer := [0], used := 1 \<rparr>) (emptyStore(0 := oneByte)) 1)
                      \<lparr> inp := \<lparr> ipc = InHead, responsePending = True \<rparr> \<rparr>)
        [Input InTau, Input InTau, Input InTau]
       = Some (Inr ((sysInit ((started 0)\<lparr> buffer := [0], used := 1 \<rparr>)
                            (emptyStore(0 := oneByte)) 1)
                      \<lparr> inp := \<lparr> ipc = InHead, responsePending = True \<rparr> \<rparr>, []))
   \<and> loopStep (loopInit (snd (pushMessage (oneStore oneByte) (started 0) 0)) (oneStore oneByte) 1)
        SendMessage
       = Some (Inr ((loopInit (snd (pushMessage (oneStore oneByte) (started 0) 0))
                        (oneStore oneByte) 1)\<lparr> responseInPending := True \<rparr>,
                    Some (ToConsumer oneByte)))
   \<and> shiftExact (oneStore oneByte) (snd (pushMessage (oneStore oneByte) (started 0) 0))
   \<and> sint (used (shiftMessage (oneStore oneByte)
                   (snd (pushMessage (oneStore oneByte) (started 0) 0))))
       \<le> sint (used (snd (pushMessage (oneStore oneByte) (started 0) 0)))"
proof -
  let ?s1 = "loopInit (snd (pushMessage (oneStore oneByte) (started 0) 0)) (oneStore oneByte) 1"
  let ?s0 = "loopInit (started 10) emptyStore 0"
  let ?s2 = "?s0\<lparr> responseOutPending := True \<rparr>"
  let ?evs = "[Input InTau, Input InTau, Input (InRecv oneByte), Input InTau]"
  let ?t3 = "(sysInit ((started 0)\<lparr> buffer := [0], used := 1 \<rparr>) (emptyStore(0 := oneByte)) 1)
                      \<lparr> inp := \<lparr> ipc = InHead, responsePending = True \<rparr> \<rparr>"
  let ?t4 = "(sysInit ((started 10)\<lparr> buffer := [0], used := 1 \<rparr>) (emptyStore(0 := oneByte)) 1)
                      \<lparr> inp := \<lparr> ipc = InRespond, responsePending = False \<rparr> \<rparr>"
  let ?t4' = "sysInit ((started 10)\<lparr> buffer := [0], used := 1 \<rparr>) (emptyStore(0 := oneByte)) 1"
  let ?t0 = "sysInit (started 10) emptyStore 0"
  let ?t7 = "?t0\<lparr> inp := \<lparr> ipc = InHead, responsePending = True \<rparr> \<rparr>"
  have h1: "limitReached (mem ?s1)"
    by (simp add: run_defs oneStore_def)
  have h2: "loopStep ?s2 SendResponse = Some (Inr (?s0, Some (ToProducer None)))"
    by (simp add: run_defs)
  have h3: "sysRun (sysInit (started 0) emptyStore 0) ?evs = Some (Inr (?t3, []))"
    by (simp add: run_defs)
  have x3: "exactShifts (sysInit (started 0) emptyStore 0) ?evs"
    by (simp add: run_defs shiftsNow_def)
  have l3: "limitReached (mem ?t3)"
    by (simp add: run_defs)
  have h4: "sysRun ?t0 ?evs = Some (Inr (?t4, []))"
    by (simp add: run_defs)
  have x4: "exactShifts ?t0 ?evs"
    by (simp add: run_defs shiftsNow_def)
  have s4: "sysStep ?t4 (Input InSend) = Some (Inr (?t4', Some (ToProducer None)))"
    by (simp add: run_defs)
  have h5: "lrunning ?s2 \<and> responseOutPending ?s2 \<and> \<not> limitReached (mem ?s2)"
    by (simp add: run_defs)
  have h6: "lrunning ?s0 \<and> \<not> responseOutPending ?s0 \<and> \<not> limitReached (mem ?s0)
      \<and> messagesIn (mem ?s0) \<noteq> None"
    by (simp add: run_defs)
  have h7: "ipc (inp ?t7) = InHead \<and> responsePending (inp ?t7) \<and> running (mem ?t7) = 1
      \<and> \<not> limitReached (mem ?t7)"
    by (simp add: run_defs)
  have h8: "ipc (inp ?t0) = InHead \<and> \<not> responsePending (inp ?t0) \<and> running (mem ?t0) = 1
      \<and> \<not> limitReached (mem ?t0) \<and> messagesIn (mem ?t0) \<noteq> None"
    by (simp add: run_defs)
  note T = backpressure
  have c1: "loopStep ?s1 (RecvMessage oneByte) = None \<and> loopStep ?s1 SendResponse = None"
    using T [THEN conjunct1, of ?s1 oneByte] h1 by simp
  have c2: "\<not> limitReached (mem ?s2)"
    using T [THEN conjunct2, THEN conjunct1, of ?s2 SendResponse ?s0 None] h2 by simp
  have c3: "sysStep ?t3 (Input (InRecv oneByte)) = None"
    using T [THEN conjunct2, THEN conjunct2, THEN conjunct1,
        of "started 0" emptyStore 0 ?evs ?t3 "[]" oneByte] h3 x3 l3 by simp
  have c4: "(None :: response) = None"
    using T [THEN conjunct2, THEN conjunct2, THEN conjunct2, THEN conjunct1,
        of ?t4 "Input InSend" ?t4' None] s4 by simp
  have c5: "\<not> limitReached (mem ?t4)"
    using T [THEN conjunct2, THEN conjunct2, THEN conjunct2, THEN conjunct2, THEN conjunct1,
        of "started 10" emptyStore 0 ?evs ?t4 "[]" "Input InSend" ?t4' None] h4 x4 s4 by simp
  have c6: "loopStep ?s2 SendResponse
      = Some (Inr (?s2\<lparr> responseOutPending := False \<rparr>, Some (ToProducer None)))"
    using T [THEN conjunct2, THEN conjunct2, THEN conjunct2, THEN conjunct2, THEN conjunct2,
        THEN conjunct1, of ?s2] h5 by simp
  have c7: "loopStep ?s0 (RecvMessage oneByte)
      = Some (Inr (?s0\<lparr> mem := snd (pushMessage ((store ?s0)(fresh ?s0 := oneByte)) (mem ?s0)
                                (fresh ?s0)),
                         store := (store ?s0)(fresh ?s0 := oneByte), fresh := Suc (fresh ?s0),
                         responseOutPending := True \<rparr>, None))"
    using T [THEN conjunct2, THEN conjunct2, THEN conjunct2, THEN conjunct2, THEN conjunct2,
        THEN conjunct2, THEN conjunct1, of ?s0 oneByte] h6 by simp
  have c8: "sysRun ?t7 [Input InTau, Input InTau, Input InSend]
      = Some (Inr (?t7\<lparr> inp := \<lparr> ipc = InReceive, responsePending = False \<rparr> \<rparr>,
                   [ToProducer None]))"
    using T [THEN conjunct2, THEN conjunct2, THEN conjunct2, THEN conjunct2, THEN conjunct2,
        THEN conjunct2, THEN conjunct2, THEN conjunct1, of ?t7] h7 by simp
  have c9: "sysRun ?t0 [Input InTau, Input InTau, Input (InRecv oneByte)]
      = Some (Inr (?t0\<lparr> store := (store ?t0)(fresh ?t0 := oneByte), fresh := Suc (fresh ?t0),
                         inp := \<lparr> ipc = InPush (fresh ?t0), responsePending = False \<rparr> \<rparr>, []))"
    using T [THEN conjunct2, THEN conjunct2, THEN conjunct2, THEN conjunct2, THEN conjunct2,
        THEN conjunct2, THEN conjunct2, THEN conjunct2, THEN conjunct1, of ?t0 oneByte] h8 by simp
  have c7': "loopStep ?s0 (RecvMessage oneByte)
       = Some (Inr ((loopInit ((started 10)\<lparr> buffer := [0], used := 1 \<rparr>)
                            (emptyStore(0 := oneByte)) 1)
                      \<lparr> responseOutPending := True \<rparr>, None))"
    unfolding c7 by (simp add: run_defs)
  have c8': "sysRun ?t7 [Input InTau, Input InTau, Input InSend]
       = Some (Inr (?t0\<lparr> inp := \<lparr> ipc = InReceive, responsePending = False \<rparr> \<rparr>,
            [ToProducer None]))"
    unfolding c8 by simp
  have c9': "sysRun ?t0 [Input InTau, Input InTau, Input (InRecv oneByte)]
       = Some (Inr ((sysInit (started 10) (emptyStore(0 := oneByte)) 1)
                      \<lparr> inp := \<lparr> ipc = InPush 0, responsePending = False \<rparr> \<rparr>, []))"
    unfolding c9 by (simp add: run_defs)
  from c1 have c1': "loopStep ?s1 (RecvMessage oneByte) = None" by simp
  let ?mp = "snd (pushMessage (oneStore oneByte) (started 0) 0)"
  have h10: "ipc (inp ?t3) = InHead \<and> running (mem ?t3) = 1 \<and> limitReached (mem ?t3)"
    by (simp add: run_defs)
  have h11: "lrunning ?s1 \<and> limitReached (mem ?s1) \<and> \<not> responseInPending ?s1
      \<and> buffer (mem ?s1) = 0 # []"
    by (simp add: run_defs oneStore_def)
  have h12: "shiftExact (oneStore oneByte) ?mp"
    by (simp add: run_defs oneStore_def shiftExact_def sizeMath_def)
  have c10: "sysRun ?t3 [Input InTau, Input InTau, Input InTau] = Some (Inr (?t3, []))"
    using T [THEN conjunct2, THEN conjunct2, THEN conjunct2, THEN conjunct2, THEN conjunct2,
        THEN conjunct2, THEN conjunct2, THEN conjunct2, THEN conjunct2, THEN conjunct1, of ?t3]
      h10 by simp
  have c11: "loopStep ?s1 SendMessage
      = Some (Inr (?s1\<lparr> responseInPending := True \<rparr>, Some (ToConsumer (store ?s1 0))))"
    using T [THEN conjunct2, THEN conjunct2, THEN conjunct2, THEN conjunct2, THEN conjunct2,
        THEN conjunct2, THEN conjunct2, THEN conjunct2, THEN conjunct2, THEN conjunct2,
        THEN conjunct1, of ?s1 0 "[]"] h11 by simp
  have c11': "loopStep ?s1 SendMessage
      = Some (Inr (?s1\<lparr> responseInPending := True \<rparr>, Some (ToConsumer oneByte)))"
    unfolding c11 by (simp add: loopInit_def oneStore_def)
  have c12: "sint (used (shiftMessage (oneStore oneByte) ?mp)) \<le> sint (used ?mp)"
    using T [THEN conjunct2, THEN conjunct2, THEN conjunct2, THEN conjunct2, THEN conjunct2,
        THEN conjunct2, THEN conjunct2, THEN conjunct2, THEN conjunct2, THEN conjunct2,
        THEN conjunct2, of "oneStore oneByte" ?mp] h12 by simp
  show ?thesis
    by (intro conjI) (rule h1 c1' h2 c2 h3 x3 l3 c3 h4 x4 s4 c5 c7' c8' c9' c10 c11' h12 c12)+
qed

subsection \<open>One response for each message\<close>

text \<open>
  C5, as amended. In every execution of \<^verbatim>\<open>loop\<close> and of the two loops, the responses
  sent to the producer so far never outnumber the messages accepted so far and fall
  short by at most one, the message whose response is still owed: no message is
  answered twice, and none is accepted while a response is owed. The response owed is
  sent while the loop runs: \<^verbatim>\<open>loop\<close> offers it whenever \<open>used\<close> is within the limit;
  \<^verbatim>\<open>inputLoop\<close> sends it right after a push that stayed within the limit, and otherwise
  at the first turn of its loop that finds \<open>used\<close> within the limit, before it receives
  again. Once a loop has stopped it sends nothing, so only a message whose response is
  owed at that moment is never answered.
\<close>

theorem one_ack_pending:
  "(loopRun (loopInit m h n) evs = Some (Inr (s, outs))
      \<longrightarrow> acks outs + (if responseOutPending s then 1 else 0) = loopAccepted evs)
   \<and> (sysRun (sysInit m h n) sevs = Some (Inr (t, souts))
      \<longrightarrow> acks souts + owing (inp t) = sysAccepted sevs \<and> owing (inp t) \<le> 1)
   \<and> (lrunning s' \<and> responseOutPending s' \<and> \<not> limitReached (mem s') \<longrightarrow>
        loopStep s' SendResponse
          = Some (Inr (s'\<lparr> responseOutPending := False \<rparr>, Some (ToProducer None))))
   \<and> (ipc (inp t') = InRespond \<longrightarrow>
        sysStep t' (Input InSend)
          = Some (Inr (t'\<lparr> inp := (inp t')\<lparr> ipc := InHead \<rparr> \<rparr>, Some (ToProducer None))))
   \<and> (ipc (inp t') = InHead \<and> responsePending (inp t') \<and> running (mem t') = 1
        \<and> \<not> limitReached (mem t') \<longrightarrow>
        sysRun t' [Input InTau, Input InTau, Input InSend]
          = Some (Inr (t'\<lparr> inp := \<lparr> ipc = InReceive, responsePending = False \<rparr> \<rparr>,
                       [ToProducer None])))
   \<and> (\<not> lrunning s' \<longrightarrow> loopStep s' ev = None)
   \<and> (ipc (inp t') = InDone \<longrightarrow> sysStep t' (Input iev) = None)"
proof -
  have a: "loopRun (loopInit m h n) evs = Some (Inr (s, outs))
      \<longrightarrow> acks outs + (if responseOutPending s then 1 else 0) = loopAccepted evs"
    using loopRun_count [of "loopInit m h n" evs s outs] by (simp add: loopInit_def)
  have c: "owing (inp t) \<le> 1"
    by (cases "ipc (inp t)") (simp_all add: owing_def)
  have "settled (inp (sysInit m h n))" by (simp add: sysInit_def settled_def)
  then have b: "sysRun (sysInit m h n) sevs = Some (Inr (t, souts))
      \<longrightarrow> acks souts + owing (inp t) = sysAccepted sevs \<and> owing (inp t) \<le> 1"
    using sysRun_count [of "sysInit m h n" sevs t souts] c by (simp add: sysInit_def owing_def)
  have p1: "lrunning s' \<and> responseOutPending s' \<and> \<not> limitReached (mem s') \<longrightarrow>
        loopStep s' SendResponse
          = Some (Inr (s'\<lparr> responseOutPending := False \<rparr>, Some (ToProducer None)))"
  proof
    assume "lrunning s' \<and> responseOutPending s' \<and> \<not> limitReached (mem s')"
    then show "loopStep s' SendResponse
          = Some (Inr (s'\<lparr> responseOutPending := False \<rparr>, Some (ToProducer None)))"
      by (intro loop_pending_response_enabled) simp_all
  qed
  have p2: "ipc (inp t') = InRespond \<longrightarrow>
        sysStep t' (Input InSend)
          = Some (Inr (t'\<lparr> inp := (inp t')\<lparr> ipc := InHead \<rparr> \<rparr>, Some (ToProducer None)))"
    by (rule impI) (rule inputLoop_immediate_response_sent)
  have p3: "ipc (inp t') = InHead \<and> responsePending (inp t') \<and> running (mem t') = 1
        \<and> \<not> limitReached (mem t') \<longrightarrow>
        sysRun t' [Input InTau, Input InTau, Input InSend]
          = Some (Inr (t'\<lparr> inp := \<lparr> ipc = InReceive, responsePending = False \<rparr> \<rparr>,
                       [ToProducer None]))"
  proof
    assume "ipc (inp t') = InHead \<and> responsePending (inp t') \<and> running (mem t') = 1
        \<and> \<not> limitReached (mem t')"
    then show "sysRun t' [Input InTau, Input InTau, Input InSend]
          = Some (Inr (t'\<lparr> inp := \<lparr> ipc = InReceive, responsePending = False \<rparr> \<rparr>,
                       [ToProducer None]))"
      by (intro inputLoop_pending_response_sent) simp_all
  qed
  have d: "\<not> lrunning s' \<longrightarrow> loopStep s' ev = None"
    by (simp add: loopStep_def)
  have e: "ipc (inp t') = InDone \<longrightarrow> sysStep t' (Input iev) = None"
    by (cases iev) simp_all
  note r6 = conjI [OF d e]
  note r5 = conjI [OF p3 r6]
  note r4 = conjI [OF p2 r5]
  note r3 = conjI [OF p1 r4]
  note r2 = conjI [OF b r3]
  show ?thesis by (rule conjI [OF a r2])
qed

theorem one_ack_pending_witness:
  "loopRun (loopInit (started 10) emptyStore 0) [RecvMessage oneByte, SendResponse]
     = Some (Inr (loopInit ((started 10)\<lparr> buffer := [0], used := 1 \<rparr>) (emptyStore(0 := oneByte)) 1,
                  [ToProducer None]))
   \<and> acks [ToProducer None] = loopAccepted [RecvMessage oneByte, SendResponse]
   \<and> sysRun (sysInit (started 10) emptyStore 0)
        [Input InTau, Input InTau, Input (InRecv oneByte), Input InTau, Input InSend]
     = Some (Inr (sysInit ((started 10)\<lparr> buffer := [0], used := 1 \<rparr>) (emptyStore(0 := oneByte)) 1,
                  [ToProducer None]))
   \<and> acks [ToProducer None]
     = sysAccepted [Input InTau, Input InTau, Input (InRecv oneByte), Input InTau, Input InSend]
   \<and> loopStep ((loopInit (started 10) emptyStore 0)\<lparr> responseOutPending := True \<rparr>) SendResponse
     = Some (Inr (loopInit (started 10) emptyStore 0, Some (ToProducer None)))
   \<and> sysStep ((sysInit (started 10) emptyStore 0)\<lparr> inp := \<lparr> ipc = InRespond, responsePending = False \<rparr> \<rparr>)
        (Input InSend)
     = Some (Inr (sysInit (started 10) emptyStore 0, Some (ToProducer None)))
   \<and> sysRun ((sysInit (started 10) emptyStore 0)\<lparr> inp := \<lparr> ipc = InHead, responsePending = True \<rparr> \<rparr>)
        [Input InTau, Input InTau, Input InSend]
     = Some (Inr ((sysInit (started 10) emptyStore 0)
                    \<lparr> inp := \<lparr> ipc = InReceive, responsePending = False \<rparr> \<rparr>, [ToProducer None]))
   \<and> loopStep ((loopInit (started 10) emptyStore 0)\<lparr> lrunning := False \<rparr>) SendResponse = None
   \<and> sysStep ((sysInit (started 10) emptyStore 0)\<lparr> inp := \<lparr> ipc = InDone, responsePending = True \<rparr> \<rparr>)
        (Input InSend) = None"
proof -
  let ?evs = "[RecvMessage oneByte, SendResponse]"
  let ?sa = "loopInit (started 10) emptyStore 0"
  let ?sf = "loopInit ((started 10)\<lparr> buffer := [0], used := 1 \<rparr>) (emptyStore(0 := oneByte)) 1"
  let ?sevs = "[Input InTau, Input InTau, Input (InRecv oneByte), Input InTau, Input InSend]"
  let ?ta = "sysInit (started 10) emptyStore 0"
  let ?tf = "sysInit ((started 10)\<lparr> buffer := [0], used := 1 \<rparr>) (emptyStore(0 := oneByte)) 1"
  let ?sb = "?sa\<lparr> responseOutPending := True \<rparr>"
  let ?tb = "?ta\<lparr> inp := \<lparr> ipc = InRespond, responsePending = False \<rparr> \<rparr>"
  let ?tc = "?ta\<lparr> inp := \<lparr> ipc = InHead, responsePending = True \<rparr> \<rparr>"
  let ?sd = "?sa\<lparr> lrunning := False \<rparr>"
  let ?td = "?ta\<lparr> inp := \<lparr> ipc = InDone, responsePending = True \<rparr> \<rparr>"
  have h1: "loopRun ?sa ?evs = Some (Inr (?sf, [ToProducer None]))"
    by (simp add: run_defs)
  have h2: "sysRun ?ta ?sevs = Some (Inr (?tf, [ToProducer None]))"
    by (simp add: run_defs)
  have h3: "\<not> lrunning ?sd" by (simp add: run_defs)
  have h4: "ipc (inp ?td) = InDone" by (simp add: run_defs)
  have h5: "lrunning ?sb \<and> responseOutPending ?sb \<and> \<not> limitReached (mem ?sb)"
    by (simp add: run_defs)
  have h6: "ipc (inp ?tb) = InRespond" by (simp add: run_defs)
  have h7: "ipc (inp ?tc) = InHead \<and> responsePending (inp ?tc) \<and> running (mem ?tc) = 1
      \<and> \<not> limitReached (mem ?tc)"
    by (simp add: run_defs)
  have p1: "\<not> responseOutPending ?sf" by (simp add: run_defs)
  have p2: "owing (inp ?tf) = 0" by (simp add: run_defs owing_def)
  note T = one_ack_pending
  have c1: "acks [ToProducer None] = loopAccepted ?evs"
    using T [THEN conjunct1, of "started 10" emptyStore 0 ?evs ?sf "[ToProducer None]"] h1 p1
    by simp
  have c2: "acks [ToProducer None] = sysAccepted ?sevs"
    using T [THEN conjunct2, THEN conjunct1,
        of "started 10" emptyStore 0 ?sevs ?tf "[ToProducer None]"] h2 p2
    by simp
  have c3: "loopStep ?sb SendResponse = Some (Inr (?sa, Some (ToProducer None)))"
    using T [THEN conjunct2, THEN conjunct2, THEN conjunct1, of ?sb] h5
    by (simp add: run_defs)
  have c4: "sysStep ?tb (Input InSend) = Some (Inr (?ta, Some (ToProducer None)))"
    using T [THEN conjunct2, THEN conjunct2, THEN conjunct2, THEN conjunct1, of ?tb] h6
    by (simp add: run_defs)
  have c5: "sysRun ?tc [Input InTau, Input InTau, Input InSend]
      = Some (Inr (?ta\<lparr> inp := \<lparr> ipc = InReceive, responsePending = False \<rparr> \<rparr>,
            [ToProducer None]))"
    using T [THEN conjunct2, THEN conjunct2, THEN conjunct2, THEN conjunct2, THEN conjunct1,
        of ?tc] h7
    by simp
  have c6: "loopStep ?sd SendResponse = None"
    using T [THEN conjunct2, THEN conjunct2, THEN conjunct2, THEN conjunct2, THEN conjunct2,
        THEN conjunct1, of ?sd SendResponse] h3
    by simp
  have c7: "sysStep ?td (Input InSend) = None"
    using T [THEN conjunct2, THEN conjunct2, THEN conjunct2, THEN conjunct2, THEN conjunct2,
        THEN conjunct2, of ?td InSend] h4
    by simp
  show ?thesis
    by (intro conjI) (rule h1 c1 h2 c2 c3 c4 c5 c6 c7)+
qed

text \<open>
  C5 as stated fails when a loop stops while a response is owed. \<^verbatim>\<open>loop\<close> accepts a
  message and then takes the close case; \<^verbatim>\<open>inputLoop\<close> accepts a message that takes
  \<open>used\<close> over the limit, and \<^verbatim>\<open>CloseAsync\<close> is called before the limit is met again.
  Both executions end with one message accepted and no response sent.
\<close>

theorem exactly_one_ack_counterexample:
  "loopRun (loopInit (started 10) emptyStore 0) [RecvMessage oneByte, CallCloseAsync, RecvClose]
     = Some (Inr (\<lparr> mem = (started 10)\<lparr> buffer := [0], used := 1, running := 0, closedWG := 1,
                                        closeChan := True \<rparr>,
                     store = emptyStore(0 := oneByte), fresh = 1,
                     lrunning = False, responseInPending = False, responseOutPending = True,
                     errors = [] \<rparr>, []))
   \<and> loopAccepted [RecvMessage oneByte, CallCloseAsync, RecvClose] = 1
   \<and> sysRun (sysInit (started 0) emptyStore 0)
        [Input InTau, Input InTau, Input (InRecv oneByte), Input InTau, Close,
         Input InTau, Input InTau]
     = Some (Inr (\<lparr> mem = (started 0)\<lparr> buffer := [0], used := 1, running := 0, closedWG := 1,
                                       closeChan := True \<rparr>,
                     store = emptyStore(0 := oneByte), fresh = 1,
                     inp = \<lparr> ipc = InDone, responsePending = True \<rparr>,
                     outp = \<lparr> opc = OutHead, omsg = None, errMap = None, errs = [] \<rparr> \<rparr>, []))
   \<and> sysAccepted [Input InTau, Input InTau, Input (InRecv oneByte), Input InTau, Close,
         Input InTau, Input InTau] = 1
   \<and> acks [] = 0"
  by (simp add: run_defs loopAccepted_def sysAccepted_def acks_def)

subsection \<open>Delivery failures\<close>

text \<open>
  C8. The claim is what \<^verbatim>\<open>outputLoop\<close> sets out to do, but its map \<^verbatim>\<open>errMap\<close> is nil
  when the first failure arrives, and the assignment to it panics: below, a message is
  accepted, acknowledged and sent on, and the consumer answers with an error.
\<close>

theorem outputLoop_failure_panics:
  "sysRun (sysInit (started 10) emptyStore 0)
     [Input InTau, Input InTau, Input (InRecv oneByte), Input InTau, Input InSend,
      Output OutTau, Output OutTau, Output OutSendMessage, Output (OutRecv (Some (ErrOther 1)))]
   = Some (Inl AssignmentToEntryInNilMap)"
  by (simp add: run_defs)

text \<open>
  The map is only ever made after a failure has been recorded, so it is nil at every
  failure: each one panics.
\<close>

lemma outputStep_errMap:
  "errMap l = None \<Longrightarrow> errs l = [] \<Longrightarrow> outputStep g l ev = Some (Inr (g', l', out)) \<Longrightarrow>
     errMap l' = None \<and> errs l' = []"
  by (cases ev; cases "opc l")
     (auto simp: mapExists_def mapAssign_def
           split: if_splits prod.splits option.splits sum.splits)

lemma sysStep_errMap:
  assumes u: "errMap (outp s) = None \<and> errs (outp s) = []"
    and st: "sysStep s ev = Some (Inr (s', out))"
  shows "errMap (outp s') = None \<and> errs (outp s') = []"
proof (cases ev)
  case (Input iev)
  with u st show ?thesis by (auto simp: setGlobals_def split: option.splits)
next
  case (Output oev)
  from st Output obtain g1 l1 where
    o: "outputStep (globalsOf s) (outp s) oev = Some (Inr (g1, l1, out))" and
    s': "s' = (setGlobals s g1)\<lparr> outp := l1 \<rparr>"
    by (auto split: option.splits sum.splits)
  from u o have "errMap l1 = None \<and> errs l1 = []"
    using outputStep_errMap by blast
  then show ?thesis by (simp add: s')
next
  case Close
  with u st show ?thesis by (auto split: sum.splits)
next
  case (Change a msg)
  with u st show ?thesis by auto
qed

lemma sysRun_errMap:
  "errMap (outp s) = None \<and> errs (outp s) = [] \<Longrightarrow> sysRun s evs = Some (Inr (s', outs)) \<Longrightarrow>
     errMap (outp s') = None \<and> errs (outp s') = []"
proof (induction evs arbitrary: s outs)
  case Nil
  then show ?case by simp
next
  case (Cons ev evs)
  from Cons.prems(2) obtain s1 out outs1 where
    st: "sysStep s ev = Some (Inr (s1, out))" and
    rn: "sysRun s1 evs = Some (Inr (s', outs1))"
    by (auto split: option.splits sum.splits)
  from Cons.prems(1) st have "errMap (outp s1) = None \<and> errs (outp s1) = []"
    by (rule sysStep_errMap)
  then show ?case using rn by (rule Cons.IH)
qed

lemma outputLoop_every_failure_panics:
  assumes "sysRun (sysInit m h n) evs = Some (Inr (s, outs))"
    and "sysStep s (Output (OutRecv (Some e))) = Some r"
  shows "r = Inl AssignmentToEntryInNilMap"
proof -
  have "errMap (outp (sysInit m h n)) = None \<and> errs (outp (sysInit m h n)) = []"
    by (simp add: sysInit_def)
  then have "errMap (outp s) = None \<and> errs (outp s) = []"
    using assms(1) by (rule sysRun_errMap)
  with assms(2) show ?thesis
    by (cases "opc (outp s)")
       (auto simp: mapExists_def mapAssign_def split: if_splits option.splits)
qed

text \<open>
  \<^verbatim>\<open>loop\<close> on a failure: the error is appended, the queue and \<open>used\<close> stay, and the
  head is offered again. It keeps no map, and the same error is recorded twice.
\<close>

lemma loop_failure_keeps_head:
  assumes "loopStep s (RecvResponse (Some e)) = Some (Inr (s', out))"
  shows "mem s' = mem s \<and> errors s' = errors s @ [e] \<and> \<not> responseInPending s' \<and> out = None"
  using assms by (auto simp: loopStep_def split: if_splits)

lemma loop_failure_redelivers:
  assumes "loopStep s (RecvResponse (Some e)) = Some (Inr (s', out))"
    and "buffer (mem s) = msg # rest"
  shows "loopStep s' SendMessage
    = Some (Inr (s'\<lparr> responseInPending := True \<rparr>, Some (ToConsumer (store s msg))))"
  using assms by (auto simp: loopStep_def outMsgChan_def nextMsg_def split: if_splits)

lemma loop_errors_keep_duplicates:
  "loopRun (loopInit (started 10) emptyStore 0)
     [RecvMessage oneByte, SendMessage, RecvResponse (Some (ErrOther 1)),
      SendMessage, RecvResponse (Some (ErrOther 1)), SendErrors]
   = Some (Inr ((loopInit ((started 10)\<lparr> buffer := [0], used := 1 \<rparr>) (emptyStore(0 := oneByte)) 1)
                  \<lparr> responseOutPending := True \<rparr>,
                [ToConsumer oneByte, ToConsumer oneByte, ToErrors [ErrOther 1, ErrOther 1]]))"
  by (simp add: run_defs)

section \<open>Assigning a channel twice\<close>

text \<open>
  C10. Once a channel is assigned, \<^verbatim>\<open>StartReceiving\<close> returns \<^verbatim>\<open>ErrAlreadyStarted\<close>
  and leaves the struct, so the assigned input channel, as it was; \<^verbatim>\<open>StartListening\<close>
  does the same for the response channel. In particular the second of two calls, the
  first of which assigned a channel, fails and keeps the channel of the first.
\<close>

theorem already_started:
  "(messagesIn m = Some c \<longrightarrow> StartReceiving m msgs = (Some ErrAlreadyStarted, m))
   \<and> (responsesIn m = Some c \<longrightarrow> StartListening m responses = (Some ErrAlreadyStarted, m, []))
   \<and> (messagesIn m = None \<longrightarrow>
        StartReceiving (snd (StartReceiving m (Some c))) msgs
          = (Some ErrAlreadyStarted, m\<lparr> messagesIn := Some c \<rparr>))
   \<and> (responsesIn m = None \<longrightarrow>
        fst (StartListening (fst (snd (StartListening m (Some c)))) responses)
          = Some ErrAlreadyStarted
        \<and> responsesIn (fst (snd (StartListening (fst (snd (StartListening m (Some c)))) responses)))
          = Some c)"
  by (simp add: StartReceiving_def StartListening_def Let_def)

theorem already_started_witness:
  "messagesIn (started 10) = Some 1
   \<and> StartReceiving (started 10) (Some 7) = (Some ErrAlreadyStarted, started 10)
   \<and> responsesIn (started 10) = Some 2
   \<and> StartListening (started 10) (Some 8) = (Some ErrAlreadyStarted, started 10, [])
   \<and> messagesIn (NewMemory (10 :: 64 word)) = None
   \<and> StartReceiving (snd (StartReceiving (NewMemory (10 :: 64 word)) (Some 1))) (Some 7)
       = (Some ErrAlreadyStarted, (NewMemory (10 :: 64 word))\<lparr> messagesIn := Some 1 \<rparr>)
   \<and> responsesIn (NewMemory (10 :: 64 word)) = None
   \<and> fst (StartListening (fst (snd (StartListening (NewMemory (10 :: 64 word)) (Some 2)))) (Some 8))
       = Some ErrAlreadyStarted
   \<and> responsesIn (fst (snd (StartListening (fst (snd (StartListening (NewMemory (10 :: 64 word)) (Some 2))))
         (Some 8)))) = Some 2"
proof -
  have h1: "messagesIn (started 10) = Some 1" by (simp add: run_defs)
  have h2: "responsesIn (started 10) = Some 2" by (simp add: run_defs)
  have h3: "messagesIn (NewMemory (10 :: 64 word)) = None" by (simp add: run_defs)
  have h4: "responsesIn (NewMemory (10 :: 64 word)) = None" by (simp add: run_defs)
  note c1 = already_started [THEN conjunct1, rule_format, OF h1, of "Some 7"]
  note c2 = already_started [THEN conjunct2, THEN conjunct1, rule_format, OF h2, of "Some 8"]
  note c3 = already_started [THEN conjunct2, THEN conjunct2, THEN conjunct1, rule_format, OF h3,
      of 1 "Some 7"]
  note c4 = already_started [THEN conjunct2, THEN conjunct2, THEN conjunct2, rule_format, OF h4,
      of 2 "Some 8"]
  from h1 h2 h3 h4 c1 c2 c3 c4 show ?thesis by simp
qed

section \<open>Properties of the fallback router\<close>

text \<open>
  The example scenario: the four messages of \<^verbatim>\<open>TestFallbackOutputBasic\<close> through its
  three targets. Each message fails at the first target and is written by the second;
  the third is never reached, and the files are the ones the test expects.
\<close>

lemma basic_first: "fallback [outOne, outTwo, outThree] (fromString ''first'')
      \<lparr>counters = [], files = []\<rparr>
  = Some ([(0, Failed (ErrOther 0)), (1, Delivered)], None,
      \<lparr>counters = [(''fallbacktobar'', 1), (''fallbacktofoo'', 2)],
       files = [(''./two/bar-2-1.txt'', ''two-first'')]\<rparr>)"
  by code_simp

lemma basic_second: "fallback [outOne, outTwo, outThree] (fromString ''second'')
      \<lparr>counters = [(''fallbacktobar'', 1), (''fallbacktofoo'', 2)],
       files = [(''./two/bar-2-1.txt'', ''two-first'')]\<rparr>
  = Some ([(0, Failed (ErrOther 0)), (1, Delivered)], None,
      \<lparr>counters = [(''fallbacktobar'', 2), (''fallbacktofoo'', 4)],
       files = [(''./two/bar-2-1.txt'', ''two-first''), (''./two/bar-4-2.txt'', ''two-second'')]\<rparr>)"
  by code_simp

lemma basic_third: "fallback [outOne, outTwo, outThree] (fromString ''third'')
      \<lparr>counters = [(''fallbacktobar'', 2), (''fallbacktofoo'', 4)],
       files = [(''./two/bar-2-1.txt'', ''two-first''), (''./two/bar-4-2.txt'', ''two-second'')]\<rparr>
  = Some ([(0, Failed (ErrOther 0)), (1, Delivered)], None,
      \<lparr>counters = [(''fallbacktobar'', 3), (''fallbacktofoo'', 6)],
       files = [(''./two/bar-2-1.txt'', ''two-first''), (''./two/bar-4-2.txt'', ''two-second''), (''./two/bar-6-3.txt'', ''two-third'')]\<rparr>)"
  by code_simp

lemma basic_fourth: "fallback [outOne, outTwo, outThree] (fromString ''fourth'')
      \<lparr>counters = [(''fallbacktobar'', 3), (''fallbacktofoo'', 6)],
       files = [(''./two/bar-2-1.txt'', ''two-first''), (''./two/bar-4-2.txt'', ''two-second''), (''./two/bar-6-3.txt'', ''two-third'')]\<rparr>
  = Some ([(0, Failed (ErrOther 0)), (1, Delivered)], None,
      \<lparr>counters = [(''fallbacktobar'', 4), (''fallbacktofoo'', 8)],
       files = [(''./two/bar-2-1.txt'', ''two-first''), (''./two/bar-4-2.txt'', ''two-second''), (''./two/bar-6-3.txt'', ''two-third''), (''./two/bar-8-4.txt'', ''two-fourth'')]\<rparr>)"
  by code_simp

lemma test_basic: "sendAll [outOne, outTwo, outThree]
     [fromString ''first'', fromString ''second'', fromString ''third'', fromString ''fourth'']
      \<lparr>counters = [], files = []\<rparr>
  = Some ([None, None, None, None],
      \<lparr>counters = [(''fallbacktobar'', 4), (''fallbacktofoo'', 8)],
       files = [(''./two/bar-2-1.txt'', ''two-first''), (''./two/bar-4-2.txt'', ''two-second''), (''./two/bar-6-3.txt'', ''two-third''), (''./two/bar-8-4.txt'', ''two-fourth'')]\<rparr>)"
  by (simp only: sendAll.simps basic_first basic_second basic_third basic_fourth
      option.case prod.case)

lemma tryFrom_visited:
  "tryFrom i t rest original w = (visited, res, w') \<Longrightarrow>
     map fst visited = [i..<i + length visited]
     \<and> visited \<noteq> []
     \<and> length visited \<le> Suc (length rest)
     \<and> list_all isFailed (butlast visited)
     \<and> (isFailed (last visited) \<longrightarrow> length visited = Suc (length rest))
     \<and> (res = None) = (\<not> isFailed (last visited))
     \<and> (\<forall>e. snd (last visited) = Failed e \<longrightarrow> res = Some e)"
proof (induction rest arbitrary: i t w visited res w')
  case Nil
  then show ?case
    by (auto split: prod.splits outcome.splits)
next
  case (Cons t' rest)
  obtain oc w1 where a: "attemptTarget t original w = (oc, w1)"
    by (cases "attemptTarget t original w")
  show ?case
  proof (cases oc)
    case NothingToDeliver
    with a Cons.prems show ?thesis by auto
  next
    case Delivered
    with a Cons.prems show ?thesis by auto
  next
    case (Failed e)
    obtain visited1 res1 w2 where r: "tryFrom (Suc i) t' rest original w1 = (visited1, res1, w2)"
      by (cases "tryFrom (Suc i) t' rest original w1")
    with a Failed Cons.prems have v: "visited = (i, Failed e) # visited1" and "res = res1"
      by auto
    note ih = Cons.IH [OF r]
    from ih have ne: "visited1 \<noteq> []" by simp
    from ih have m: "map fst visited1 = [Suc i..<Suc i + length visited1]" by simp
    have "map fst visited = i # [Suc i..<Suc i + length visited1]"
      using v m by simp
    also have "\<dots> = [i..<i + length visited]"
      using v by (simp add: upt_rec)
    finally have 1: "map fst visited = [i..<i + length visited]" .
    from ih v ne \<open>res = res1\<close> 1 show ?thesis by simp
  qed
qed



lemma rejecting_fails:
  "Parts original \<noteq> [] \<Longrightarrow> attemptTarget (rejecting e) original v = (Failed e, v)"
  by (simp add: attemptTarget_def rejecting_def)



lemma tryFrom_all_reject:
  "\<forall>t'\<in>set (t # rest). \<forall>v. \<exists>e. fst (attemptTarget t' original v) = Failed e \<Longrightarrow>
     list_all isFailed (fst (tryFrom i t rest original w))"
proof (induction rest arbitrary: i t w)
  case Nil
  then have "\<exists>e. fst (attemptTarget t original w) = Failed e" by simp
  then obtain e where "fst (attemptTarget t original w) = Failed e" ..
  then show ?case by (cases "attemptTarget t original w") simp
next
  case (Cons t' rest)
  from Cons.prems have "\<exists>e. fst (attemptTarget t original w) = Failed e" by simp
  then obtain e where "fst (attemptTarget t original w) = Failed e" ..
  then obtain w1 where a: "attemptTarget t original w = (Failed e, w1)"
    by (cases "attemptTarget t original w") simp
  from Cons.prems have "\<forall>x\<in>set (t' # rest). \<forall>v. \<exists>e. fst (attemptTarget x original v) = Failed e"
    by simp
  then have "list_all isFailed (fst (tryFrom (Suc i) t' rest original w1))"
    by (rule Cons.IH)
  moreover obtain visited1 res1 w2 where
    "tryFrom (Suc i) t' rest original w1 = (visited1, res1, w2)"
    by (cases "tryFrom (Suc i) t' rest original w1")
  ultimately show ?case using a by simp
qed

text \<open>
  C7. When every target rejects, the router has tried all N targets and resolves the
  transaction as rejected with the error of the last target; the resolution is the one
  thing that goes upstream, and it carries that error and no other.
\<close>

theorem fallback_exhausted:
  "(fallback ts original w = Some (visited, res, w') \<and> list_all isFailed visited \<longrightarrow>
      length visited = length ts
      \<and> (\<exists>e. last visited = (length ts - 1, Failed e) \<and> res = Some e))
   \<and> (ts \<noteq> [] \<and> (\<forall>t\<in>set ts. \<forall>v. \<exists>e. fst (attemptTarget t original v) = Failed e) \<longrightarrow>
      (\<exists>visited' e w''. fallback ts original w = Some (visited', Some e, w'')
          \<and> list_all isFailed visited'
          \<and> last visited' = (length ts - 1, Failed e)))"
proof -
  have g: "fallback ts original w = Some (visited, res, w') \<and> list_all isFailed visited \<longrightarrow>
      length visited = length ts
      \<and> (\<exists>e. last visited = (length ts - 1, Failed e) \<and> res = Some e)" for visited res w'
  proof
    assume h: "fallback ts original w = Some (visited, res, w') \<and> list_all isFailed visited"
    then obtain t rest where ts: "ts = t # rest"
      and r: "tryFrom 0 t rest original w = (visited, res, w')"
      by (auto simp: fallback_def split: list.splits)
    note v = tryFrom_visited [OF r]
    from v have ne: "visited \<noteq> []" by simp
    with h have fl: "isFailed (last visited)" by (simp add: list_all_iff)
    with v ts have len: "length visited = length ts" by simp
    from v have "map fst visited = [0..<length visited]" by simp
    then have "fst (last visited) = last [0..<length visited]"
      using ne by (metis last_map)
    with ne have ix: "fst (last visited) = length visited - 1"
      by (cases "length visited") simp_all
    from fl obtain j e where le: "last visited = (j, Failed e)"
      by (cases "last visited" rule: isFailed.cases) simp_all
    with v have "res = Some e" by simp
    with le ix len show "length visited = length ts
      \<and> (\<exists>e. last visited = (length ts - 1, Failed e) \<and> res = Some e)"
      by simp
  qed
  have p: "ts \<noteq> [] \<and> (\<forall>t\<in>set ts. \<forall>v. \<exists>e. fst (attemptTarget t original v) = Failed e) \<longrightarrow>
      (\<exists>visited' e w''. fallback ts original w = Some (visited', Some e, w'')
          \<and> list_all isFailed visited'
          \<and> last visited' = (length ts - 1, Failed e))"
  proof
    assume h: "ts \<noteq> [] \<and> (\<forall>t\<in>set ts. \<forall>v. \<exists>e. fst (attemptTarget t original v) = Failed e)"
    then obtain t rest where ts: "ts = t # rest" by (cases ts) auto
    obtain visited1 res1 w1 where r: "tryFrom 0 t rest original w = (visited1, res1, w1)"
      by (cases "tryFrom 0 t rest original w")
    then have f: "fallback ts original w = Some (visited1, res1, w1)"
      by (simp add: fallback_def ts)
    from h ts have "list_all isFailed (fst (tryFrom 0 t rest original w))"
      using tryFrom_all_reject [of t rest original 0 w] by simp
    with r have fl: "list_all isFailed visited1" by simp
    from g [of visited1 res1 w1] f fl obtain e where
      "last visited1 = (length ts - 1, Failed e)" and "res1 = Some e"
      by auto
    with f fl show "\<exists>visited' e w''. fallback ts original w = Some (visited', Some e, w'')
          \<and> list_all isFailed visited'
          \<and> last visited' = (length ts - 1, Failed e)"
      by auto
  qed
  from g [of visited res w'] p show ?thesis by (rule conjI)
qed

theorem fallback_exhausted_witness:
  "fallback [rejecting (ErrOther 1), rejecting (ErrOther 2)] oneByte ()
     = Some ([(0, Failed (ErrOther 1)), (1, Failed (ErrOther 2))], Some (ErrOther 2), ())
   \<and> list_all isFailed [(0, Failed (ErrOther 1)), (1, Failed (ErrOther 2))]
   \<and> last [(0::nat, Failed (ErrOther 1)), (1, Failed (ErrOther 2))]
       = (length [rejecting (ErrOther 1) :: unit target, rejecting (ErrOther 2)] - 1,
          Failed (ErrOther 2))
   \<and> (\<exists>visited' e w''.
         fallback [rejecting (ErrOther 1), rejecting (ErrOther 2)] oneByte ()
           = Some (visited', Some e, w'')
         \<and> list_all isFailed visited'
         \<and> last visited' = (length [rejecting (ErrOther 1) :: unit target, rejecting (ErrOther 2)] - 1,
              Failed e))"
proof -
  let ?ts = "[rejecting (ErrOther 1) :: unit target, rejecting (ErrOther 2)]"
  let ?visited = "[(0::nat, Failed (ErrOther 1)), (1, Failed (ErrOther 2))]"
  have ne: "Parts oneByte \<noteq> []" by (simp add: oneByte_def)
  have h1: "fallback ?ts oneByte () = Some (?visited, Some (ErrOther 2), ())"
    by (simp add: fallback_def rejecting_fails [OF ne])
  have h2: "list_all isFailed ?visited" by simp
  have h3: "?ts \<noteq> []" by simp
  have h4: "\<forall>t\<in>set ?ts. \<forall>v. \<exists>e. fst (attemptTarget t oneByte v) = Failed e"
    by (simp add: rejecting_fails [OF ne])
  have c1: "length ?visited = length ?ts
      \<and> (\<exists>e. last ?visited = (length ?ts - 1, Failed e) \<and> Some (ErrOther 2) = Some e)"
    using fallback_exhausted [THEN conjunct1, rule_format, of ?ts oneByte "()" ?visited
        "Some (ErrOther 2)" "()"] h1 h2 by blast
  have c2: "\<exists>visited' e w''. fallback ?ts oneByte () = Some (visited', Some e, w'')
          \<and> list_all isFailed visited'
          \<and> last visited' = (length ?ts - 1, Failed e)"
    using fallback_exhausted [THEN conjunct2, rule_format, of ?ts oneByte "()"] h3 h4 by blast
  from c1 have c1': "last ?visited = (length ?ts - 1, Failed (ErrOther 2))" by simp
  from h1 h2 c1' c2 show ?thesis by simp
qed

end
